theory Spec2Isabelle
  imports Main "HOL-Library.Multiset"
begin

section \<open>Errors\<close>

text \<open>
  The exceptions the modelled code can raise: \<^verbatim>\<open>IndexError\<close> (reading
  \<^verbatim>\<open>suites[0]\<close> of an empty list), \<^verbatim>\<open>KeyError\<close> (a missing dictionary key),
  \<^verbatim>\<open>AttributeError\<close> (an attribute read before it is set) and the error of
  \<^verbatim>\<open>re.compile\<close> on a malformed expression.
\<close>

datatype error = IndexError | KeyError | AttributeError | ReError

section \<open>The consumed tree: tests\<close>

text \<open>
  A test as the statistics code reads it: \<^verbatim>\<open>test.status\<close>, \<^verbatim>\<open>test.critical\<close>
  (the string \<^verbatim>\<open>'yes'\<close> marks a critical test) and \<^verbatim>\<open>test.tags\<close>.
\<close>

record test_case =
  status :: string
  test_critical :: string
  tags :: "string list"

section \<open>Stat: the base counter record\<close>

text \<open>
  \<^verbatim>\<open>class Stat\<close>: a name and two counters. Python integers are unbounded, so the
  counters are of type \<^typ>\<open>int\<close>. The subclasses extend the record, and the
  operations below are stated on the record scheme, as the methods are inherited.
\<close>

record stat =
  name :: string
  passed :: int
  failed :: int

definition Stat_init :: "string \<Rightarrow> stat" where
  "Stat_init n = \<lparr>name = n, passed = 0, failed = 0\<rparr>"

definition Stat_total :: "'a stat_scheme \<Rightarrow> int" where
  "Stat_total self = passed self + failed self"

definition add_stat :: "'a stat_scheme \<Rightarrow> 'b stat_scheme \<Rightarrow> 'a stat_scheme" where
  "add_stat self other =
     (let s1 = self\<lparr>passed := passed self + passed other\<rparr>
      in s1\<lparr>failed := failed s1 + failed other\<rparr>)"

definition Stat_add_test :: "'a stat_scheme \<Rightarrow> test_case \<Rightarrow> 'a stat_scheme" where
  "Stat_add_test self test =
     (if status test = ''PASS''
      then self\<lparr>passed := passed self + 1\<rparr>
      else self\<lparr>failed := failed self + 1\<rparr>)"

definition fail_all :: "'a stat_scheme \<Rightarrow> 'a stat_scheme" where
  "fail_all self =
     (let s1 = self\<lparr>failed := failed self + passed self\<rparr>
      in s1\<lparr>passed := 0\<rparr>)"

definition Stat_nonzero :: "'a stat_scheme \<Rightarrow> bool" where
  "Stat_nonzero self = (failed self = 0)"

section \<open>Python's regular expressions, as far as the pattern compiler uses them\<close>

text \<open>
  \<^verbatim>\<open>re.escape\<close> of Python 2 puts a backslash before every character that is not an
  ASCII letter or digit, and writes the NUL character as a backslash and three zeros.
\<close>

definition is_alnum :: "char \<Rightarrow> bool" where
  "is_alnum c =
     (let n = (of_char c :: nat)
      in (48 \<le> n \<and> n \<le> 57) \<or> (65 \<le> n \<and> n \<le> 90) \<or> (97 \<le> n \<and> n \<le> 122))"

definition escape_char :: "char \<Rightarrow> string" where
  "escape_char c =
     (if is_alnum c then [c]
      else if c = CHR 0x00 then [CHR 0x5C, CHR ''0'', CHR ''0'', CHR ''0'']
      else [CHR 0x5C, c])"

definition re_escape :: "string \<Rightarrow> string" where
  "re_escape pattern = concat (map escape_char pattern)"

text \<open>
  The expressions that \<^verbatim>\<open>_get_match_regexp\<close> builds use only the two anchors,
  plain groups, the dot, the starred dot and literal characters. \<open>re_lex\<close> reads
  such an expression into its items and answers \<open>None\<close> on anything else
  (quantifiers on other items, character classes, alternation, special escapes).
\<close>

datatype re_token = RBegin | REnd | ROpen | RClose | RAny | RAnyStar | RLit char

definition re_special :: "char \<Rightarrow> bool" where
  "re_special c = (c \<in> set ''*+?{}[]|'')"

fun re_lex :: "string \<Rightarrow> re_token list option" where
  "re_lex [] = Some []"
| "re_lex (c # cs) =
     (if c = CHR ''^'' then map_option (Cons RBegin) (re_lex cs)
      else if c = CHR ''$'' then map_option (Cons REnd) (re_lex cs)
      else if c = CHR ''('' then map_option (Cons ROpen) (re_lex cs)
      else if c = CHR '')'' then map_option (Cons RClose) (re_lex cs)
      else if c = CHR ''.'' then
        (case cs of
           d # ds \<Rightarrow> if d = CHR ''*'' then map_option (Cons RAnyStar) (re_lex ds)
                     else map_option (Cons RAny) (re_lex cs)
         | [] \<Rightarrow> Some [RAny])
      else if c = CHR 0x5C then
        (case cs of
           [] \<Rightarrow> None
         | d # ds \<Rightarrow>
             if \<not> is_alnum d then map_option (Cons (RLit d)) (re_lex ds)
             else if take 3 cs = ''000'' then map_option (Cons (RLit (CHR 0x00))) (re_lex (drop 3 cs))
             else None)
      else if re_special c then None
      else map_option (Cons (RLit c)) (re_lex cs))"

text \<open>
  Groups must be closed and are not nested; \<^verbatim>\<open>re.compile\<close> raises on an
  unbalanced parenthesis.
\<close>

fun re_groups_ok :: "bool \<Rightarrow> re_token list \<Rightarrow> bool" where
  "re_groups_ok opn [] = (\<not> opn)"
| "re_groups_ok opn (ROpen # ts) = (\<not> opn \<and> re_groups_ok True ts)"
| "re_groups_ok opn (RClose # ts) = (opn \<and> re_groups_ok False ts)"
| "re_groups_ok opn (t # ts) = re_groups_ok opn ts"

record regex =
  re_source :: string
  re_ignorecase :: bool
  re_tokens :: "re_token list"

definition re_compile :: "string \<Rightarrow> bool \<Rightarrow> error + regex" where
  "re_compile src ignorecase =
     (case re_lex src of
        None \<Rightarrow> Inl ReError
      | Some ts \<Rightarrow>
          if re_groups_ok False ts
          then Inr \<lparr>re_source = src, re_ignorecase = ignorecase, re_tokens = ts\<rparr>
          else Inl ReError)"

text \<open>
  Matching, as \<^verbatim>\<open>pattern.match(string)\<close> does it: from the start of the subject, by
  backtracking, a starred dot taking as many characters as it can first. The dot does
  not match a newline; \<^verbatim>\<open>$\<close> matches at the end of the subject and before a
  newline that ends it; with \<^verbatim>\<open>re.IGNORECASE\<close> literals are compared after
  lowering ASCII letters (\<open>ascii_lower\<close> is the code of the lowered character).
  The arguments of \<open>re_run\<close> are the flag, the items left, whether the subject is
  still at its start, the rest of the subject, the text of the group that is open, and
  the groups closed so far; the result is \<^verbatim>\<open>match.groups()\<close>, or \<open>None\<close> for
  no match.
\<close>

definition ascii_lower :: "char \<Rightarrow> nat" where
  "ascii_lower c =
     (let n = (of_char c :: nat)
      in if 65 \<le> n \<and> n \<le> 90 then n + 32 else n)"

definition chars_equal :: "bool \<Rightarrow> char \<Rightarrow> char \<Rightarrow> bool" where
  "chars_equal ignorecase x c =
     (if ignorecase then ascii_lower x = ascii_lower c else x = c)"

definition grow :: "string option \<Rightarrow> char \<Rightarrow> string option" where
  "grow og c = map_option (\<lambda>g. g @ [c]) og"

fun re_run :: "bool \<Rightarrow> re_token list \<Rightarrow> bool \<Rightarrow> string \<Rightarrow> string option \<Rightarrow> string list
                 \<Rightarrow> string list option" where
  "re_run ic [] st s og gs = Some gs"
| "re_run ic (RBegin # ts) st s og gs = (if st then re_run ic ts st s og gs else None)"
| "re_run ic (REnd # ts) st s og gs =
     (if s = [] \<or> s = [CHR 0x0A] then re_run ic ts st s og gs else None)"
| "re_run ic (ROpen # ts) st s og gs = re_run ic ts st s (Some []) gs"
| "re_run ic (RClose # ts) st s og gs =
     (case og of None \<Rightarrow> None | Some g \<Rightarrow> re_run ic ts st s None (gs @ [g]))"
| "re_run ic (RAny # ts) st [] og gs = None"
| "re_run ic (RAny # ts) st (c # s) og gs =
     (if c = CHR 0x0A then None else re_run ic ts False s (grow og c) gs)"
| "re_run ic (RLit x # ts) st [] og gs = None"
| "re_run ic (RLit x # ts) st (c # s) og gs =
     (if chars_equal ic x c then re_run ic ts False s (grow og c) gs else None)"
| "re_run ic (RAnyStar # ts) st [] og gs = re_run ic ts st [] og gs"
| "re_run ic (RAnyStar # ts) st (c # s) og gs =
     (if c = CHR 0x0A then re_run ic ts st (c # s) og gs
      else (case re_run ic (RAnyStar # ts) False s (grow og c) gs of
              Some r \<Rightarrow> Some r
            | None \<Rightarrow> re_run ic ts st (c # s) og gs))"

definition re_match :: "regex \<Rightarrow> string \<Rightarrow> string list option" where
  "re_match rx s = re_run (re_ignorecase rx) (re_tokens rx) True s None []"

section \<open>Python's string operations\<close>

text \<open>
  \<^verbatim>\<open>s.replace(old, new)\<close> replaces the occurrences of \<open>old\<close> from left to right,
  without overlap (and puts \<open>new\<close> around every character when \<open>old\<close> is empty);
  \<^verbatim>\<open>str(n)\<close> is the decimal numeral of a natural number; \<^verbatim>\<open>sep.join(xs)\<close>
  concatenates with a separator.
\<close>

function replace_from :: "string \<Rightarrow> string \<Rightarrow> string \<Rightarrow> string" where
  "replace_from old new [] = []"
| "replace_from old new (c # cs) =
     (if old \<noteq> [] \<and> take (length old) (c # cs) = old
      then new @ replace_from old new (drop (length old) (c # cs))
      else c # replace_from old new cs)"
  by pat_completeness auto
termination
  by (relation "measure (\<lambda>(old, new, s). length s)") (auto simp: neq_Nil_conv)

definition str_replace :: "string \<Rightarrow> string \<Rightarrow> string \<Rightarrow> string" where
  "str_replace s old new =
     (if old = [] then new @ concat (map (\<lambda>c. c # new) s)
      else replace_from old new s)"

definition digit_char :: "nat \<Rightarrow> char" where
  "digit_char d = ''0123456789'' ! d"

function str_nat :: "nat \<Rightarrow> string" where
  "str_nat n = (if n < 10 then [digit_char n] else str_nat (n div 10) @ [digit_char (n mod 10)])"
  by pat_completeness auto
termination
  by (relation "measure (\<lambda>n. n)") auto

declare str_nat.simps [simp del]

fun join :: "string \<Rightarrow> string list \<Rightarrow> string" where
  "join sep [] = []"
| "join sep [x] = x"
| "join sep (x # y # ys) = x @ sep @ join sep (y # ys)"

section \<open>The pattern compiler: TagStatLink._get_match_regexp\<close>

text \<open>
  \<^verbatim>\<open>_match_pattern_tokenizer.split(pattern)\<close>, the tokenizer being
  \<^verbatim>\<open>re.compile('(\*|\?)')\<close>: the pattern is cut at every star and question mark,
  and the delimiters are kept, so the result alternates text (possibly empty) and
  delimiters.
\<close>

fun tokenizer_split_from :: "string \<Rightarrow> string \<Rightarrow> string list" where
  "tokenizer_split_from acc [] = [acc]"
| "tokenizer_split_from acc (c # cs) =
     (if c = CHR ''*'' \<or> c = CHR ''?''
      then acc # [c] # tokenizer_split_from [] cs
      else tokenizer_split_from (acc @ [c]) cs)"

definition match_pattern_tokenizer_split :: "string \<Rightarrow> string list" where
  "match_pattern_tokenizer_split pattern = tokenizer_split_from [] pattern"

text \<open>
  The loop of \<^verbatim>\<open>_get_match_regexp\<close> over the tokens, with its two variables
  \<^verbatim>\<open>regexp\<close> (the list of pieces) and \<^verbatim>\<open>open_parenthesis\<close>. After the loop
  the group still open is closed, and the pieces are joined between \<^verbatim>\<open>^\<close> and
  \<^verbatim>\<open>$\<close> and compiled with \<^verbatim>\<open>re.IGNORECASE\<close>.
\<close>

fun regexp_loop :: "string list \<Rightarrow> bool \<Rightarrow> string list \<Rightarrow> string list \<times> bool" where
  "regexp_loop regexp open_parenthesis [] = (regexp, open_parenthesis)"
| "regexp_loop regexp open_parenthesis (token # rest) =
     (if token = [] then regexp_loop regexp open_parenthesis rest
      else if token = ''?'' then
        (if \<not> open_parenthesis
         then regexp_loop ((regexp @ [''('']) @ [''.'']) True rest
         else regexp_loop (regexp @ [''.'']) open_parenthesis rest)
      else
        (let (regexp1, open1) =
               (if open_parenthesis then (regexp @ ['')''], False)
                else (regexp, open_parenthesis))
         in if token = ''*'' then regexp_loop (regexp1 @ [''(.*)'']) open1 rest
            else regexp_loop (regexp1 @ [re_escape token]) open1 rest))"

definition get_match_regexp_source :: "string \<Rightarrow> string" where
  "get_match_regexp_source pattern =
     (let (regexp, open_parenthesis) =
            regexp_loop [] False (match_pattern_tokenizer_split pattern);
          regexp2 = (if open_parenthesis then regexp @ ['')''] else regexp)
      in ''^'' @ concat regexp2 @ ''$'')"

definition get_match_regexp :: "string \<Rightarrow> error + regex" where
  "get_match_regexp pattern = re_compile (get_match_regexp_source pattern) True"

section \<open>TagStatLink\<close>

text \<open>
  A link rule: the compiled pattern, the link template, and the title template with
  its underscores replaced by spaces when the rule is created. \<^verbatim>\<open>_replace_groups\<close>
  runs through the captured groups in order; \<^verbatim>\<open>index\<close> counts from 0 and the
  placeholder of a group is \<^verbatim>\<open>'%' + str(index+1)\<close>.
\<close>

record tag_stat_link =
  link_regexp :: regex
  link_link :: string
  link_title :: string

definition TagStatLink_init :: "string \<Rightarrow> string \<Rightarrow> string \<Rightarrow> error + tag_stat_link" where
  "TagStatLink_init pattern link title =
     (case get_match_regexp pattern of
        Inl e \<Rightarrow> Inl e
      | Inr rx \<Rightarrow>
          Inr \<lparr>link_regexp = rx, link_link = link,
               link_title = str_replace title ''_'' '' ''\<rparr>)"

definition TagStatLink_matches :: "tag_stat_link \<Rightarrow> string \<Rightarrow> bool" where
  "TagStatLink_matches self tag = (re_match (link_regexp self) tag \<noteq> None)"

fun replace_groups_loop :: "nat \<Rightarrow> string list \<Rightarrow> string \<Rightarrow> string \<Rightarrow> string \<times> string" where
  "replace_groups_loop index [] link title = (link, title)"
| "replace_groups_loop index (grp # groups) link title =
     (let placefolder = ''%'' @ str_nat (index + 1)
      in replace_groups_loop (index + 1) groups
           (str_replace link placefolder grp) (str_replace title placefolder grp))"

definition replace_groups :: "string \<Rightarrow> string \<Rightarrow> string list \<Rightarrow> string \<times> string" where
  "replace_groups link title groups = replace_groups_loop 0 groups link title"

definition get_link :: "tag_stat_link \<Rightarrow> string \<Rightarrow> (string \<times> string) option" where
  "get_link self tag =
     (case re_match (link_regexp self) tag of
        None \<Rightarrow> None
      | Some groups \<Rightarrow> Some (replace_groups (link_link self) (link_title self) groups))"

section \<open>Tag patterns and criticality: the collaborators\<close>

text \<open>
  Modelled from the spec: \<^verbatim>\<open>robot.model.tags.TagPatterns\<close> is not part of the
  source file. The statistics code uses a pattern set only through its truth value
  (whether it holds any pattern) and through \<^verbatim>\<open>match\<close>, called with one tag or
  with the tags of a test; a single tag is passed as a one-element list. The
  constructor is a parameter \<open>TagPatterns\<close> of the functions that build pattern
  sets, so every result holds for any matcher.
  The criticality of a suite is likewise read through its two predicates only.
\<close>

record tag_patterns =
  pat_len :: nat
  pat_match :: "string list \<Rightarrow> bool"

record criticality =
  is_critical :: "string \<Rightarrow> bool"
  is_non_critical :: "string \<Rightarrow> bool"

section \<open>TagStatDoc and TagStatInfo: the tag decorator\<close>

record tag_stat_doc =
  doc_text :: string
  doc_pattern :: tag_patterns

definition TagStatDoc_init :: "(string list \<Rightarrow> tag_patterns) \<Rightarrow> string \<Rightarrow> string \<Rightarrow> tag_stat_doc" where
  "TagStatDoc_init TagPatterns pattern doc = \<lparr>doc_text = doc, doc_pattern = TagPatterns [pattern]\<rparr>"

definition TagStatDoc_matches :: "tag_stat_doc \<Rightarrow> string \<Rightarrow> bool" where
  "TagStatDoc_matches self tag = pat_match (doc_pattern self) [tag]"

record tag_stat_info =
  info_docs :: "tag_stat_doc list"
  info_links :: "tag_stat_link list"

fun TagStatLink_init_all :: "(string \<times> string \<times> string) list \<Rightarrow> error + tag_stat_link list" where
  "TagStatLink_init_all [] = Inr []"
| "TagStatLink_init_all ((pattern, link, title) # rest) =
     (case TagStatLink_init pattern link title of
        Inl e \<Rightarrow> Inl e
      | Inr l \<Rightarrow>
          (case TagStatLink_init_all rest of
             Inl e \<Rightarrow> Inl e
           | Inr ls \<Rightarrow> Inr (l # ls)))"

definition TagStatInfo_init ::
  "(string list \<Rightarrow> tag_patterns) \<Rightarrow> (string \<times> string) list \<Rightarrow> (string \<times> string \<times> string) list
     \<Rightarrow> error + tag_stat_info" where
  "TagStatInfo_init TagPatterns docs links =
     (let ds = map (\<lambda>(pattern, doc). TagStatDoc_init TagPatterns pattern doc) docs
      in case TagStatLink_init_all links of
           Inl e \<Rightarrow> Inl e
         | Inr ls \<Rightarrow> Inr \<lparr>info_docs = ds, info_links = ls\<rparr>)"

definition get_doc :: "tag_stat_info \<Rightarrow> string \<Rightarrow> string" where
  "get_doc self tag =
     join '' & '' (map doc_text (filter (\<lambda>doc. TagStatDoc_matches doc tag) (info_docs self)))"

definition get_links :: "tag_stat_info \<Rightarrow> string \<Rightarrow> (string \<times> string) option list" where
  "get_links self tag =
     map (\<lambda>link. get_link link tag) (filter (\<lambda>link. TagStatLink_matches link tag) (info_links self))"

section \<open>TagStat\<close>

text \<open>
  \<^verbatim>\<open>class TagStat(Stat)\<close>. \<open>links\<close> holds what \<^verbatim>\<open>get_links\<close> returned.
  \<open>TagStat_info\<close> is the property \<^verbatim>\<open>_info\<close>, the kind under which a tag is
  reported.
\<close>

record tag_stat = stat +
  doc :: string
  links :: "(string \<times> string) option list"
  critical :: bool
  non_critical :: bool
  combined :: string
  tests :: "test_case list"

definition TagStat_init ::
  "string \<Rightarrow> string \<Rightarrow> (string \<times> string) option list \<Rightarrow> bool \<Rightarrow> bool \<Rightarrow> string \<Rightarrow> tag_stat" where
  "TagStat_init n d ls crit non_crit comb =
     \<lparr>name = n, passed = 0, failed = 0, doc = d, links = ls, critical = crit,
      non_critical = non_crit, combined = comb, tests = []\<rparr>"

definition TagStat_info :: "tag_stat \<Rightarrow> string" where
  "TagStat_info self =
     (if critical self then ''critical''
      else if non_critical self then ''non-critical''
      else if combined self \<noteq> [] then ''combined''
      else [])"

definition TagStat_add_test :: "tag_stat \<Rightarrow> test_case \<Rightarrow> tag_stat" where
  "TagStat_add_test self test =
     (let s1 = Stat_add_test self test in s1\<lparr>tests := tests s1 @ [test]\<rparr>)"

text \<open>
  \<^verbatim>\<open>TagStat.__cmp__\<close>, with Python's \<^verbatim>\<open>cmp\<close> on truth values and on strings
  (strings compare character by character, by character code, a proper prefix first).
\<close>

definition cmp_bool :: "bool \<Rightarrow> bool \<Rightarrow> int" where
  "cmp_bool a b = (if a = b then 0 else if b then - 1 else 1)"

fun cmp_string :: "string \<Rightarrow> string \<Rightarrow> int" where
  "cmp_string [] [] = 0"
| "cmp_string [] (b # bs) = - 1"
| "cmp_string (a # as) [] = 1"
| "cmp_string (a # as) (b # bs) =
     (if (of_char a :: nat) < of_char b then - 1
      else if (of_char b :: nat) < of_char a then 1
      else cmp_string as bs)"

definition TagStat_cmp :: "tag_stat \<Rightarrow> tag_stat \<Rightarrow> int" where
  "TagStat_cmp self other =
     (if critical self \<noteq> critical other then cmp_bool (critical other) (critical self)
      else if non_critical self \<noteq> non_critical other
        then cmp_bool (non_critical other) (non_critical self)
      else if (combined self \<noteq> []) \<noteq> (combined other \<noteq> [])
        then cmp_bool (combined other \<noteq> []) (combined self \<noteq> [])
      else cmp_string (name self) (name other))"

text \<open>
  \<^verbatim>\<open>sorted(xs)\<close>: Python's sort is stable and compares with \<^verbatim>\<open><\<close> only, which
  for these objects is \<^verbatim>\<open>__cmp__(x, y) < 0\<close>. It is modelled by the stable
  insertion sort; \<^verbatim>\<open>TagStat.__cmp__\<close> is a total preorder (shown below), and on
  such an order every stable sort returns the same list.
\<close>

fun insort_cmp :: "('a \<Rightarrow> 'a \<Rightarrow> int) \<Rightarrow> 'a \<Rightarrow> 'a list \<Rightarrow> 'a list" where
  "insort_cmp cmp x [] = [x]"
| "insort_cmp cmp x (y # ys) =
     (if cmp y x < 0 then y # insort_cmp cmp x ys else x # y # ys)"

definition sorted_cmp :: "('a \<Rightarrow> 'a \<Rightarrow> int) \<Rightarrow> 'a list \<Rightarrow> 'a list" where
  "sorted_cmp cmp xs = foldr (insort_cmp cmp) xs []"

section \<open>TagStatistics: the tag aggregator\<close>

text \<open>
  \<^verbatim>\<open>class CombinedTag\<close>: the pattern text, its matcher, and the name, which is the
  pattern when no name is given.
\<close>

record combined_tag =
  comb_pattern :: string
  comb_matcher :: tag_patterns
  comb_name :: string

definition CombinedTag_init :: "(string list \<Rightarrow> tag_patterns) \<Rightarrow> string \<Rightarrow> string \<Rightarrow> combined_tag" where
  "CombinedTag_init TagPatterns pattern n =
     \<lparr>comb_pattern = pattern, comb_matcher = TagPatterns [pattern],
      comb_name = (if n \<noteq> [] then n else pattern)\<rparr>"

definition CombinedTag_match :: "combined_tag \<Rightarrow> string list \<Rightarrow> bool" where
  "CombinedTag_match self tgs = pat_match (comb_matcher self) tgs"

text \<open>
  Modelled from the spec: \<^verbatim>\<open>robot.utils.NormalizedDict\<close> is not part of the source
  file. It is a dictionary whose keys are normalised before every insertion and lookup;
  the normalisation function is the field \<open>normalize\<close>, left open. The dictionary
  is an association list in insertion order, and setting a key that is present
  replaces its value in place.
\<close>

record tag_statistics =
  normalize :: "string \<Rightarrow> string"
  stats :: "(string \<times> tag_stat) list"
  ts_include :: tag_patterns
  ts_exclude :: tag_patterns
  ts_info :: tag_stat_info
  ts_combine :: "combined_tag list"

fun dict_update :: "string \<Rightarrow> 'v \<Rightarrow> (string \<times> 'v) list \<Rightarrow> (string \<times> 'v) list" where
  "dict_update k v [] = [(k, v)]"
| "dict_update k v ((k', v') # d) =
     (if k' = k then (k, v) # d else (k', v') # dict_update k v d)"

definition stats_contains :: "tag_statistics \<Rightarrow> string \<Rightarrow> bool" where
  "stats_contains self key = (map_of (stats self) (normalize self key) \<noteq> None)"

definition stats_getitem :: "tag_statistics \<Rightarrow> string \<Rightarrow> error + tag_stat" where
  "stats_getitem self key =
     (case map_of (stats self) (normalize self key) of
        None \<Rightarrow> Inl KeyError
      | Some v \<Rightarrow> Inr v)"

definition stats_setitem :: "tag_statistics \<Rightarrow> string \<Rightarrow> tag_stat \<Rightarrow> tag_statistics" where
  "stats_setitem self key v = self\<lparr>stats := dict_update (normalize self key) v (stats self)\<rparr>"

definition stats_values :: "tag_statistics \<Rightarrow> tag_stat list" where
  "stats_values self = map snd (stats self)"

text \<open>
  The constructor: it creates the empty dictionary, the two pattern sets and the
  decorator, and \<^verbatim>\<open>_create_combined\<close> stores one \<^verbatim>\<open>TagStat\<close> for every combined
  definition under the definition's name.
\<close>

fun create_combined_loop :: "tag_statistics \<Rightarrow> combined_tag list \<Rightarrow> tag_statistics" where
  "create_combined_loop self [] = self"
| "create_combined_loop self (comb # combines) =
     create_combined_loop
       (stats_setitem self (comb_name comb)
          (TagStat_init (comb_name comb) (get_doc (ts_info self) (comb_name comb))
             (get_links (ts_info self) (comb_name comb)) False False (comb_pattern comb)))
       combines"

definition create_combined ::
  "(string list \<Rightarrow> tag_patterns) \<Rightarrow> tag_statistics \<Rightarrow> (string \<times> string) list
     \<Rightarrow> tag_statistics \<times> combined_tag list" where
  "create_combined TagPatterns self combines =
     (let combs = map (\<lambda>(pattern, n). CombinedTag_init TagPatterns pattern n) combines
      in (create_combined_loop self combs, combs))"

definition TagStatistics_init ::
  "(string list \<Rightarrow> tag_patterns) \<Rightarrow> (string \<Rightarrow> string) \<Rightarrow> string list \<Rightarrow> string list
     \<Rightarrow> (string \<times> string) list \<Rightarrow> (string \<times> string) list \<Rightarrow> (string \<times> string \<times> string) list
     \<Rightarrow> error + tag_statistics" where
  "TagStatistics_init TagPatterns norm incl excl combine docs lnks =
     (case TagStatInfo_init TagPatterns docs lnks of
        Inl e \<Rightarrow> Inl e
      | Inr info \<Rightarrow>
          (let self = \<lparr>normalize = norm, stats = [], ts_include = TagPatterns incl,
                       ts_exclude = TagPatterns excl, ts_info = info, ts_combine = []\<rparr>;
               (self2, combs) = create_combined TagPatterns self combine
           in Inr (self2\<lparr>ts_combine := combs\<rparr>)))"

text \<open>
  \<^verbatim>\<open>add_test\<close>: first the loop of \<^verbatim>\<open>_add_tags_statistics\<close> over the tags of the
  test, then the loop of \<^verbatim>\<open>_add_combined_statistics\<close> over the combined
  definitions. A subscript \<^verbatim>\<open>self.stats[key]\<close> on a missing key raises
  \<^verbatim>\<open>KeyError\<close>.
\<close>

definition is_included :: "tag_statistics \<Rightarrow> string \<Rightarrow> bool" where
  "is_included self tag =
     (if 0 < pat_len (ts_include self) \<and> \<not> pat_match (ts_include self) [tag] then False
      else \<not> pat_match (ts_exclude self) [tag])"

fun add_tags_statistics_loop ::
  "tag_statistics \<Rightarrow> test_case \<Rightarrow> criticality \<Rightarrow> string list \<Rightarrow> error + tag_statistics" where
  "add_tags_statistics_loop self test crit [] = Inr self"
| "add_tags_statistics_loop self test crit (tag # rest) =
     (if \<not> is_included self tag then add_tags_statistics_loop self test crit rest
      else
        (let self1 =
               (if \<not> stats_contains self tag
                then stats_setitem self tag
                       (TagStat_init tag (get_doc (ts_info self) tag) (get_links (ts_info self) tag)
                          (is_critical crit tag) (is_non_critical crit tag) [])
                else self)
         in case stats_getitem self1 tag of
              Inl e \<Rightarrow> Inl e
            | Inr st \<Rightarrow>
                add_tags_statistics_loop (stats_setitem self1 tag (TagStat_add_test st test))
                  test crit rest))"

definition add_tags_statistics :: "tag_statistics \<Rightarrow> test_case \<Rightarrow> criticality \<Rightarrow> error + tag_statistics" where
  "add_tags_statistics self test crit = add_tags_statistics_loop self test crit (tags test)"

fun add_combined_statistics_loop ::
  "tag_statistics \<Rightarrow> test_case \<Rightarrow> combined_tag list \<Rightarrow> error + tag_statistics" where
  "add_combined_statistics_loop self test [] = Inr self"
| "add_combined_statistics_loop self test (comb # rest) =
     (if CombinedTag_match comb (tags test)
      then (case stats_getitem self (comb_name comb) of
              Inl e \<Rightarrow> Inl e
            | Inr st \<Rightarrow>
                add_combined_statistics_loop
                  (stats_setitem self (comb_name comb) (TagStat_add_test st test)) test rest)
      else add_combined_statistics_loop self test rest)"

definition add_combined_statistics :: "tag_statistics \<Rightarrow> test_case \<Rightarrow> error + tag_statistics" where
  "add_combined_statistics self test = add_combined_statistics_loop self test (ts_combine self)"

definition TagStatistics_add_test ::
  "tag_statistics \<Rightarrow> test_case \<Rightarrow> criticality \<Rightarrow> error + tag_statistics" where
  "TagStatistics_add_test self test crit =
     (case add_tags_statistics self test crit of
        Inl e \<Rightarrow> Inl e
      | Inr self1 \<Rightarrow> add_combined_statistics self1 test)"

text \<open>
  \<^verbatim>\<open>__iter__\<close>: the values of the dictionary, sorted.
\<close>

definition TagStatistics_iter :: "tag_statistics \<Rightarrow> tag_stat list" where
  "TagStatistics_iter self = sorted_cmp TagStat_cmp (stats_values self)"

section \<open>The consumed tree: suites\<close>

text \<open>
  A suite as the statistics code reads it: \<^verbatim>\<open>longname\<close>, \<^verbatim>\<open>name\<close>, \<^verbatim>\<open>id\<close>,
  \<^verbatim>\<open>critical\<close> (the criticality of the run), \<^verbatim>\<open>tests\<close> and \<^verbatim>\<open>suites\<close>.
\<close>

datatype suite =
  Suite (longname: string) (suite_name: string) (suite_id: string) (suite_critical: criticality)
    (suite_tests: "test_case list") (suite_suites: "suite list")

section \<open>SuiteStat and SuiteStatistics\<close>

text \<open>
  \<^verbatim>\<open>class SuiteStat(Stat)\<close>: named by the long name of the suite, with its id and
  the attributes \<^verbatim>\<open>name\<close> and \<^verbatim>\<open>idx\<close>.
\<close>

record suite_stat = stat +
  stat_id :: string
  attrs :: "(string \<times> string) list"

definition SuiteStat_init :: "suite \<Rightarrow> suite_stat" where
  "SuiteStat_init s =
     \<lparr>name = longname s, passed = 0, failed = 0, stat_id = suite_id s,
      attrs = [(''name'', suite_name s), (''idx'', suite_id s)]\<rparr>"

text \<open>
  \<^verbatim>\<open>class SuiteStatistics\<close>: the two stats of a suite and its child nodes, the latter
  as addresses in the store of the builder (see below).
\<close>

record suite_statistics =
  ss_all :: suite_stat
  ss_critical :: suite_stat
  ss_suites :: "nat list"

definition SuiteStatistics_init :: "suite \<Rightarrow> suite_statistics" where
  "SuiteStatistics_init s = \<lparr>ss_all = SuiteStat_init s, ss_critical = SuiteStat_init s, ss_suites = []\<rparr>"

definition SuiteStatistics_add_test :: "suite_statistics \<Rightarrow> test_case \<Rightarrow> suite_statistics" where
  "SuiteStatistics_add_test self test =
     (let s1 = self\<lparr>ss_all := Stat_add_test (ss_all self) test\<rparr>
      in if test_critical test = ''yes''
         then s1\<lparr>ss_critical := Stat_add_test (ss_critical s1) test\<rparr>
         else s1)"

section \<open>StatisticsBuilder: the suite aggregator\<close>

text \<open>
  The builder shares its \<^verbatim>\<open>SuiteStatistics\<close> objects: a new object is appended to
  its parent's \<^verbatim>\<open>suites\<close> when the suite starts and is filled afterwards, and the
  parents wait on a stack. The objects therefore live in a store, \<open>heap\<close>, from
  addresses to objects; \<open>next_addr\<close> is the first free address, and the
  \<^verbatim>\<open>suites\<close> list of an object, the stack \<^verbatim>\<open>_parents\<close> and
  \<^verbatim>\<open>_current_suite_stat\<close> hold addresses. \<^verbatim>\<open>_current_suite\<close> has no value
  before the first suite starts.
\<close>

record builder =
  heap :: "nat \<Rightarrow> suite_statistics"
  next_addr :: nat
  tag_stats :: tag_statistics
  parents :: "nat list"
  suite_stat_level :: int
  current_suite_stat :: nat
  current_suite :: "suite option"

definition start_suite :: "builder \<Rightarrow> suite \<Rightarrow> builder" where
  "start_suite self s =
     (let new = next_addr self;
          cur = current_suite_stat self;
          h1 = (heap self)(new := SuiteStatistics_init s);
          h2 = (if suite_stat_level self = - 1 \<or> int (length (parents self)) < suite_stat_level self
                then h1(cur := (h1 cur)\<lparr>ss_suites := ss_suites (h1 cur) @ [new]\<rparr>)
                else h1)
      in self\<lparr>heap := h2, next_addr := new + 1, parents := parents self @ [cur],
              current_suite_stat := new, current_suite := Some s\<rparr>)"

definition end_suite :: "builder \<Rightarrow> suite \<Rightarrow> builder" where
  "end_suite self s =
     (if parents self \<noteq> [] then
        (let p = last (parents self);
             cur = current_suite_stat self;
             h1 = (heap self)(p := (heap self p)\<lparr>ss_all := add_stat (ss_all (heap self p)) (ss_all (heap self cur))\<rparr>);
             h2 = h1(p := (h1 p)\<lparr>ss_critical := add_stat (ss_critical (h1 p)) (ss_critical (h1 cur))\<rparr>)
         in self\<lparr>heap := h2, current_suite_stat := p, parents := butlast (parents self)\<rparr>)
      else self)"

definition visit_test :: "builder \<Rightarrow> test_case \<Rightarrow> error + builder" where
  "visit_test self test =
     (let cur = current_suite_stat self;
          h1 = (heap self)(cur := SuiteStatistics_add_test (heap self cur) test)
      in case current_suite self of
           None \<Rightarrow> Inl AttributeError
         | Some s \<Rightarrow>
             (case TagStatistics_add_test (tag_stats self) test (suite_critical s) of
                Inl e \<Rightarrow> Inl e
              | Inr ts \<Rightarrow> Inr (self\<lparr>heap := h1, tag_stats := ts\<rparr>)))"

text \<open>
  Modelled from the spec: \<^verbatim>\<open>SuiteVisitor.visit_suite\<close> of
  \<^verbatim>\<open>robot.result.visitor\<close> is not part of the source file. It is the depth-first
  traversal: enter the suite, visit its tests and its child suites, leave the suite.
  The spec does not say whether the tests or the child suites of a suite come first, so
  the order is the parameter \<open>tests_first\<close>, and every result holds for both.
\<close>

fun visit_tests :: "builder \<Rightarrow> test_case list \<Rightarrow> error + builder" where
  "visit_tests self [] = Inr self"
| "visit_tests self (test # rest) =
     (case visit_test self test of
        Inl e \<Rightarrow> Inl e
      | Inr self1 \<Rightarrow> visit_tests self1 rest)"

fun visit_suite :: "bool \<Rightarrow> builder \<Rightarrow> suite \<Rightarrow> error + builder"
  and visit_suites :: "bool \<Rightarrow> builder \<Rightarrow> suite list \<Rightarrow> error + builder" where
  "visit_suite tests_first self (Suite ln n i c ts ss) =
     (let s = Suite ln n i c ts ss;
          self1 = start_suite self s
      in case (if tests_first
               then (case visit_tests self1 ts of
                       Inl e \<Rightarrow> Inl e
                     | Inr self2 \<Rightarrow> visit_suites tests_first self2 ss)
               else (case visit_suites tests_first self1 ss of
                       Inl e \<Rightarrow> Inl e
                     | Inr self2 \<Rightarrow> visit_tests self2 ts)) of
           Inl e \<Rightarrow> Inl e
         | Inr self3 \<Rightarrow> Inr (end_suite self3 s))"
| "visit_suites tests_first self [] = Inr self"
| "visit_suites tests_first self (s # rest) =
     (case visit_suite tests_first self s of
        Inl e \<Rightarrow> Inl e
      | Inr self1 \<Rightarrow> visit_suites tests_first self1 rest)"

text \<open>
  \<^verbatim>\<open>StatisticsBuilder(tag_stats, suite_stat_level).build(suite)\<close>. The first line of
  \<^verbatim>\<open>build\<close> creates the wrapper object, here at address 0; cells from
  \<open>next_addr\<close> on are free and are never read before they are allocated. The
  result is the address of the root object (\<^verbatim>\<open>suites[0]\<close> of the wrapper) with
  the final state of the builder, or the \<^verbatim>\<open>IndexError\<close> of that subscript.
\<close>

definition StatisticsBuilder_init :: "tag_statistics \<Rightarrow> int \<Rightarrow> suite \<Rightarrow> builder" where
  "StatisticsBuilder_init tag_stats_arg level s =
     \<lparr>heap = (\<lambda>a. SuiteStatistics_init s), next_addr = 1, tag_stats = tag_stats_arg,
      parents = [], suite_stat_level = level, current_suite_stat = 0, current_suite = None\<rparr>"

definition build :: "bool \<Rightarrow> tag_statistics \<Rightarrow> int \<Rightarrow> suite \<Rightarrow> error + (nat \<times> builder)" where
  "build tests_first tag_stats_arg level s =
     (case visit_suite tests_first (StatisticsBuilder_init tag_stats_arg level s) s of
        Inl e \<Rightarrow> Inl e
      | Inr self \<Rightarrow>
          (case ss_suites (heap self (current_suite_stat self)) of
             [] \<Rightarrow> Inl IndexError
           | root # others \<Rightarrow> Inr (root, self)))"

section \<open>Notions used in the statements and proofs\<close>

subsection \<open>The tag aggregator never raises\<close>

text \<open>
  The invariant of the tag aggregator: every combined-tag definition has its
  \<^verbatim>\<open>TagStat\<close> in the dictionary. The constructor establishes it and \<^verbatim>\<open>add_test\<close>
  keeps it, so the lookup \<^verbatim>\<open>self.stats[comb.name]\<close> never raises.
\<close>

definition combined_seeded :: "tag_statistics \<Rightarrow> bool" where
  "combined_seeded self = list_all (\<lambda>comb. stats_contains self (comb_name comb)) (ts_combine self)"

text \<open>
  \<open>same_config a b\<close>: the state \<open>b\<close> has the configuration of \<open>a\<close> and at least
  its keys.
\<close>

definition same_config :: "tag_statistics \<Rightarrow> tag_statistics \<Rightarrow> bool" where
  "same_config a b =
     (normalize b = normalize a \<and> ts_combine b = ts_combine a \<and> ts_include b = ts_include a
      \<and> ts_exclude b = ts_exclude a \<and> ts_info b = ts_info a
      \<and> (\<forall>k. stats_contains a k \<longrightarrow> stats_contains b k))"

subsection \<open>The suite aggregator\<close>

text \<open>
  The tests anywhere in a suite tree, and the number of suites in it.
\<close>

fun all_tests :: "suite \<Rightarrow> test_case list" where
  "all_tests (Suite ln n i c ts ss) = ts @ concat (map all_tests ss)"

fun nodes :: "suite \<Rightarrow> nat" where
  "nodes (Suite ln n i c ts ss) = Suc (sum_list (map nodes ss))"

text \<open>
  The tests marked critical, that is, those whose \<^verbatim>\<open>critical\<close> attribute is
  \<^verbatim>\<open>'yes'\<close>.
\<close>

definition critical_tests :: "test_case list \<Rightarrow> test_case list" where
  "critical_tests ts = filter (\<lambda>t. test_critical t = ''yes'') ts"

text \<open>
  \<open>counted st ts\<close>: the stat \<open>st\<close> after the tests \<open>ts\<close> were added to it, in any
  order.
\<close>

definition counted :: "'a stat_scheme \<Rightarrow> test_case list \<Rightarrow> 'a stat_scheme" where
  "counted st ts =
     st\<lparr>passed := passed st + int (length (filter (\<lambda>t. status t = ''PASS'') ts)),
        failed := failed st + int (length (filter (\<lambda>t. status t \<noteq> ''PASS'') ts))\<rparr>"

text \<open>
  The condition of \<^verbatim>\<open>start_suite\<close> under which a new node is appended to the current
  one: the limit is \<open>-1\<close>, or the stack of parents is shorter than the limit.
\<close>

definition shown :: "int \<Rightarrow> nat \<Rightarrow> bool" where
  "shown level depth = (level = - 1 \<or> int depth < level)"

text \<open>
  The objects are allocated in the order in which the suites start, so the object of a
  suite is followed by those of its descendants. \<open>child_addrs n ss\<close> are the addresses
  of the sibling suites \<open>ss\<close> when the first is allocated at \<open>n\<close>.
\<close>

fun child_addrs :: "nat \<Rightarrow> suite list \<Rightarrow> nat list" where
  "child_addrs n [] = []"
| "child_addrs n (s # ss) = n # child_addrs (n + nodes s) ss"

text \<open>
  The object of a suite when the suite has ended: both stats count the tests of the
  whole subtree, and the children are listed if they were \<open>shown\<close> at the depth
  \<open>depth\<close> that the stack had while they started. \<open>obj_at level depth n s a\<close> is the
  finished object at the address \<open>a\<close> within the subtree of \<open>s\<close> allocated from
  \<open>n\<close> on.
\<close>

definition finished :: "int \<Rightarrow> nat \<Rightarrow> nat \<Rightarrow> suite \<Rightarrow> suite_statistics" where
  "finished level depth n s =
     \<lparr>ss_all = counted (SuiteStat_init s) (all_tests s),
      ss_critical = counted (SuiteStat_init s) (critical_tests (all_tests s)),
      ss_suites = (if shown level depth then child_addrs (Suc n) (suite_suites s) else [])\<rparr>"

fun obj_at :: "int \<Rightarrow> nat \<Rightarrow> nat \<Rightarrow> suite \<Rightarrow> nat \<Rightarrow> suite_statistics option"
  and objs_at :: "int \<Rightarrow> nat \<Rightarrow> nat \<Rightarrow> suite list \<Rightarrow> nat \<Rightarrow> suite_statistics option" where
  "obj_at level depth n (Suite ln nm i c ts ss) a =
     (if a = n then Some (finished level depth n (Suite ln nm i c ts ss))
      else objs_at level (Suc depth) (Suc n) ss a)"
| "objs_at level depth n [] a = None"
| "objs_at level depth n (s # ss) a =
     (if a < n + nodes s then obj_at level depth n s a
      else objs_at level depth (n + nodes s) ss a)"

text \<open>
  \<open>tested obj ts\<close>: the object after \<^verbatim>\<open>SuiteStatistics.add_test\<close> for each of the
  tests \<open>ts\<close>, or after the merge of a child whose subtree holds these tests.
\<close>

definition tested :: "suite_statistics \<Rightarrow> test_case list \<Rightarrow> suite_statistics" where
  "tested obj ts =
     obj\<lparr>ss_all := counted (ss_all obj) ts,
         ss_critical := counted (ss_critical obj) (critical_tests ts)\<rparr>"

text \<open>
  What a traversal step does to the builder, from \<open>b\<close> to \<open>b'\<close>: stack, current
  node and limit are as before; \<open>m\<close> objects were allocated and are the
  \<open>expected\<close> ones; the current node has the tests \<open>tsts\<close> counted in and the
  addresses \<open>addrs\<close> appended; no other object has changed.
\<close>

definition visited ::
  "builder \<Rightarrow> builder \<Rightarrow> nat \<Rightarrow> test_case list \<Rightarrow> nat list \<Rightarrow> (nat \<Rightarrow> suite_statistics option) \<Rightarrow> bool" where
  "visited b b' m tsts addrs expected =
     (parents b' = parents b \<and> current_suite_stat b' = current_suite_stat b
      \<and> suite_stat_level b' = suite_stat_level b \<and> next_addr b' = next_addr b + m
      \<and> combined_seeded (tag_stats b') \<and> current_suite b' \<noteq> None
      \<and> heap b' (current_suite_stat b) =
          (tested (heap b (current_suite_stat b)) tsts)
            \<lparr>ss_suites := ss_suites (heap b (current_suite_stat b)) @ addrs\<rparr>
      \<and> (\<forall>a. a \<noteq> current_suite_stat b \<and> (a < next_addr b \<or> next_addr b + m \<le> a)
             \<longrightarrow> heap b' a = heap b a)
      \<and> (\<forall>a. next_addr b \<le> a \<and> a < next_addr b + m \<longrightarrow> expected a = Some (heap b' a)))"

text \<open>
  \<open>ready b\<close>: the current node is allocated and the tag aggregator satisfies its
  invariant.
\<close>

definition ready :: "builder \<Rightarrow> bool" where
  "ready b = (current_suite_stat b < next_addr b \<and> combined_seeded (tag_stats b))"

text \<open>
  The nodes of the output tree below \<open>root\<close>: those reached from the root through the
  \<^verbatim>\<open>suites\<close> lists of the store \<open>h\<close>.
\<close>

inductive retained :: "(nat \<Rightarrow> suite_statistics) \<Rightarrow> nat \<Rightarrow> nat \<Rightarrow> bool"
  for h :: "nat \<Rightarrow> suite_statistics" and root :: nat where
  retained_root: "retained h root root"
| retained_child: "retained h root a \<Longrightarrow> c \<in> set (ss_suites (h a)) \<Longrightarrow> retained h root c"

code_pred retained .

text \<open>
  Two objects with the same stats, the first listing the children of the second or
  none.
\<close>

definition same_counts :: "suite_statistics \<Rightarrow> suite_statistics \<Rightarrow> bool" where
  "same_counts x y =
     (ss_all x = ss_all y \<and> ss_critical x = ss_critical y
      \<and> (ss_suites x = ss_suites y \<or> ss_suites x = []))"

subsection \<open>The pattern compiler\<close>

text \<open>
  The expression between the anchors and its items, written by recursion over the
  characters of the pattern; the flag says whether a group of question marks is open.
  They are shown to be what the tokenizer and the loop produce.
\<close>

fun glob_body :: "bool \<Rightarrow> string \<Rightarrow> string" where
  "glob_body opn [] = (if opn then '')'' else [])"
| "glob_body opn (c # cs) =
     (if c = CHR ''?'' then (if opn then ''.'' else ''(.'') @ glob_body True cs
      else (if opn then '')'' else []) @ (if c = CHR ''*'' then ''(.*)'' else escape_char c)
           @ glob_body False cs)"

fun glob_tokens :: "bool \<Rightarrow> string \<Rightarrow> re_token list" where
  "glob_tokens opn [] = (if opn then [RClose] else [])"
| "glob_tokens opn (c # cs) =
     (if c = CHR ''?'' then (if opn then [RAny] else [ROpen, RAny]) @ glob_tokens True cs
      else (if opn then [RClose] else [])
           @ (if c = CHR ''*'' then [ROpen, RAnyStar, RClose] else [RLit c])
           @ glob_tokens False cs)"

text \<open>
  A text token of the tokenizer holds no star and no question mark.
\<close>

definition no_wildcard :: "string \<Rightarrow> bool" where
  "no_wildcard s = list_all (\<lambda>c. c \<noteq> CHR ''*'' \<and> c \<noteq> CHR ''?'') s"

text \<open>
  The pieces joined after the loop, the open group closed.
\<close>

definition finish_regexp :: "string list \<times> bool \<Rightarrow> string" where
  "finish_regexp r = (case r of (regexp, opn) \<Rightarrow> concat (if opn then regexp @ ['')''] else regexp))"

text \<open>
  The reading of a wildcard pattern that the specification gives: a pattern is a
  sequence of stars, maximal runs of question marks (with their length) and literal
  characters; a star stands for one group holding \<^verbatim>\<open>.*\<close>, a run of \<open>n\<close> question
  marks for one group holding \<open>n\<close> dots, a literal for itself.
\<close>

datatype wildcard = Star | Questions nat | Literal char

fun wildcards :: "string \<Rightarrow> wildcard list" where
  "wildcards [] = []"
| "wildcards (c # cs) =
     (if c = CHR ''?'' then
        (case wildcards cs of
           Questions n # ws \<Rightarrow> Questions (Suc n) # ws
         | ws \<Rightarrow> Questions 1 # ws)
      else if c = CHR ''*'' then Star # wildcards cs
      else Literal c # wildcards cs)"

fun wildcard_tokens :: "wildcard \<Rightarrow> re_token list" where
  "wildcard_tokens Star = [ROpen, RAnyStar, RClose]"
| "wildcard_tokens (Questions n) = ROpen # replicate n RAny @ [RClose]"
| "wildcard_tokens (Literal c) = [RLit c]"

text \<open>
  The number of maximal runs of question marks in a pattern (a run ends at a question
  mark that is the last character or is followed by another character), and the number
  of groups among the items of an expression.
\<close>

fun question_runs :: "string \<Rightarrow> nat" where
  "question_runs [] = 0"
| "question_runs [c] = (if c = CHR ''?'' then 1 else 0)"
| "question_runs (c # d # cs) =
     (if c = CHR ''?'' \<and> d \<noteq> CHR ''?'' then 1 else 0) + question_runs (d # cs)"

definition group_count :: "re_token list \<Rightarrow> nat" where
  "group_count ts = length (filter (\<lambda>t. t = ROpen) ts)"

subsection \<open>The tag decorator\<close>

text \<open>
  The groups captured when the compiled pattern matches the tag, \<open>None\<close> when it does
  not match.
\<close>

definition pattern_groups :: "string \<Rightarrow> string \<Rightarrow> string list option" where
  "pattern_groups pattern tag =
     (case get_match_regexp pattern of Inl e \<Rightarrow> None | Inr rx \<Rightarrow> re_match rx tag)"

text \<open>
  The substitution as the specification words it: each captured group is put in the
  place of its positional placeholder. The placeholder of the group with the index
  \<open>i\<close>, counted from 0, is \<^verbatim>\<open>%\<close> followed by the decimal numeral of \<open>i + 1\<close>.
  \<open>placeholder_at n s\<close> is the index of the group, among the first \<open>n\<close>, whose
  placeholder stands at the beginning of \<open>s\<close>; when two do, as \<^verbatim>\<open>%1\<close> and
  \<^verbatim>\<open>%10\<close>, it is the longer one. \<open>substitute_at_once\<close> reads the template once from
  left to right: where a placeholder stands, the text of its group is put and the
  reading goes on behind the placeholder; every other character is kept. The text of a
  group is never read again.
\<close>

definition placeholder :: "nat \<Rightarrow> string" where
  "placeholder i = ''%'' @ str_nat (i + 1)"

fun placeholder_at :: "nat \<Rightarrow> string \<Rightarrow> nat option" where
  "placeholder_at 0 s = None"
| "placeholder_at (Suc i) s =
     (if take (length (placeholder i)) s = placeholder i then Some i
      else placeholder_at i s)"

function substitute_at_once :: "string list \<Rightarrow> string \<Rightarrow> string" where
  "substitute_at_once groups [] = []"
| "substitute_at_once groups (c # cs) =
     (case placeholder_at (length groups) (c # cs) of
        None \<Rightarrow> c # substitute_at_once groups cs
      | Some i \<Rightarrow>
          groups ! i @ substitute_at_once groups (drop (length (placeholder i)) (c # cs)))"
  by pat_completeness auto
termination
  by (relation "measure (\<lambda>(groups, s). length s)") (auto simp: placeholder_def)

declare substitute_at_once.simps(2) [simp del]

text \<open>
  \<open>double_percent s\<close>: two percent signs stand side by side somewhere in \<open>s\<close>.
\<close>

fun double_percent :: "string \<Rightarrow> bool" where
  "double_percent (c # d # cs) = (c = CHR ''%'' \<and> d = CHR ''%'' \<or> double_percent (d # cs))"
| "double_percent cs = False"

text \<open>
  \<open>late_placeholder n s\<close>: somewhere in \<open>s\<close> stands the placeholder of a tenth or
  later group among \<open>n\<close> groups, that is, one with two or more digits.
\<close>

fun late_placeholder :: "nat \<Rightarrow> string \<Rightarrow> bool" where
  "late_placeholder n [] = False"
| "late_placeholder n (c # cs) =
     ((case placeholder_at n (c # cs) of None \<Rightarrow> False | Some i \<Rightarrow> 9 \<le> i)
      \<or> late_placeholder n cs)"

text \<open>
  The groups and templates for which replacing one group after the other cannot meet a
  placeholder that the template did not have, nor miss one that it had: no percent sign
  in a captured group; no two percent signs side by side in the template; and in the
  template no placeholder of a tenth or later group, whose beginning is the placeholder
  of an earlier one.
\<close>

definition plain_substitution :: "string list \<Rightarrow> string \<Rightarrow> bool" where
  "plain_substitution groups template =
     (list_all (\<lambda>g. CHR ''%'' \<notin> set g) groups
      \<and> \<not> double_percent template
      \<and> \<not> late_placeholder (length groups) template)"

text \<open>
  For the proofs: a digit from 1 to 9, and a text in which a percent sign stands
  before such a digit.
\<close>

definition nonzero_digit :: "char \<Rightarrow> bool" where
  "nonzero_digit d = (d \<in> set ''123456789'')"

fun percent_digit :: "string \<Rightarrow> bool" where
  "percent_digit (c # d # cs) = (c = CHR ''%'' \<and> nonzero_digit d \<or> percent_digit (d # cs))"
| "percent_digit cs = False"

text \<open>
  The \<^verbatim>\<open>TagStatLink\<close> object that the constructor builds for a rule.
\<close>

definition compiled_link :: "string \<times> string \<times> string \<Rightarrow> tag_stat_link" where
  "compiled_link rule =
     (case rule of (pattern, link, title) \<Rightarrow>
        \<lparr>link_regexp = \<lparr>re_source = get_match_regexp_source pattern, re_ignorecase = True,
                         re_tokens = RBegin # glob_tokens False pattern @ [REnd]\<rparr>,
         link_link = link, link_title = str_replace title ''_'' '' ''\<rparr>)"

subsection \<open>What a match means\<close>

text \<open>
  \<open>instance_of ws groups s\<close>: the text \<open>s\<close> is the pattern \<open>ws\<close> with its
  wildcards replaced by the \<open>groups\<close>, one for each star and each run of question
  marks, in order: a literal stands for itself up to the case of ASCII letters, a star
  for any text without a newline, a run of \<open>n\<close> question marks for \<open>n\<close> characters
  other than a newline.
\<close>

fun instance_of :: "wildcard list \<Rightarrow> string list \<Rightarrow> string \<Rightarrow> bool" where
  "instance_of [] groups s = (groups = [] \<and> s = [])"
| "instance_of (Literal c # ws) groups s =
     (case s of
        [] \<Rightarrow> False
      | x # xs \<Rightarrow> ascii_lower x = ascii_lower c \<and> instance_of ws groups xs)"
| "instance_of (Star # ws) groups s =
     (case groups of
        [] \<Rightarrow> False
      | g # gs \<Rightarrow> CHR 0x0A \<notin> set g \<and> take (length g) s = g
                 \<and> instance_of ws gs (drop (length g) s))"
| "instance_of (Questions n # ws) groups s =
     (case groups of
        [] \<Rightarrow> False
      | g # gs \<Rightarrow> length g = n \<and> CHR 0x0A \<notin> set g \<and> take n s = g
                 \<and> instance_of ws gs (drop n s))"

subsection \<open>Combined tags\<close>

text \<open>
  A run of \<^verbatim>\<open>add_test\<close> calls, stopping at the first error.
\<close>

fun TagStatistics_add_tests ::
  "tag_statistics \<Rightarrow> (test_case \<times> criticality) list \<Rightarrow> error + tag_statistics" where
  "TagStatistics_add_tests self [] = Inr self"
| "TagStatistics_add_tests self ((test, crit) # rest) =
     (case TagStatistics_add_test self test crit of
        Inl e \<Rightarrow> Inl e
      | Inr self1 \<Rightarrow> TagStatistics_add_tests self1 rest)"

text \<open>
  \<open>add_times n st test\<close>: \<^verbatim>\<open>TagStat.add_test\<close> called \<open>n\<close> times with the same test.
  \<open>same_key\<close>: two names are the same key of the dictionary.
\<close>

fun add_times :: "nat \<Rightarrow> tag_stat \<Rightarrow> test_case \<Rightarrow> tag_stat" where
  "add_times 0 st test = st"
| "add_times (Suc n) st test = add_times n (TagStat_add_test st test) test"

definition same_key :: "tag_statistics \<Rightarrow> string \<Rightarrow> string \<Rightarrow> bool" where
  "same_key self a b = (normalize self a = normalize self b)"

subsection \<open>The order of the tag statistics\<close>

text \<open>
  The four buckets of the specification, numbered in their order; they are the four
  values of \<^verbatim>\<open>TagStat._info\<close>. \<open>one_mark\<close>: at most one of the three marks is set.
  \<open>bucket_then_name\<close>: the order by bucket and, within a bucket, by name.
\<close>

definition bucket :: "tag_stat \<Rightarrow> nat" where
  "bucket st =
     (if critical st then 0 else if non_critical st then 1 else if combined st \<noteq> [] then 2 else 3)"

definition one_mark :: "tag_stat \<Rightarrow> bool" where
  "one_mark st =
     ((if critical st then 1 else 0) + (if non_critical st then 1 else 0)
        + (if combined st \<noteq> [] then 1 else 0) \<le> (1::nat))"

definition bucket_then_name :: "tag_stat \<Rightarrow> tag_stat \<Rightarrow> bool" where
  "bucket_then_name a b =
     (bucket a < bucket b \<or> (bucket a = bucket b \<and> cmp_string (name a) (name b) \<le> 0))"

text \<open>
  The three marks as \<^verbatim>\<open>__cmp__\<close> compares them, as one number.
\<close>

definition marks :: "tag_stat \<Rightarrow> nat" where
  "marks st =
     (if critical st then 0 else 4) + (if non_critical st then 0 else 2)
       + (if combined st \<noteq> [] then 0 else 1)"

subsection \<open>Example inputs\<close>

text \<open>
  Concrete inputs for the examples below. \<open>simple_patterns\<close> is one possible tag
  matcher: a pattern set matches when one of its patterns is among the tags.
\<close>

definition simple_patterns :: "string list \<Rightarrow> tag_patterns" where
  "simple_patterns ps = \<lparr>pat_len = length ps, pat_match = (\<lambda>tgs. list_ex (\<lambda>p. p \<in> set tgs) ps)\<rparr>"

definition example_criticality :: criticality where
  "example_criticality = \<lparr>is_critical = (\<lambda>t. False), is_non_critical = (\<lambda>t. False)\<rparr>"

definition example_test :: "string \<Rightarrow> string \<Rightarrow> test_case" where
  "example_test st cr = \<lparr>status = st, test_critical = cr, tags = []\<rparr>"

definition example_suite :: suite where
  "example_suite =
     Suite ''Root'' ''Root'' ''s1'' example_criticality [example_test ''PASS'' ''no'']
       [Suite ''Root.A'' ''A'' ''s1-s1'' example_criticality
          [example_test ''PASS'' ''yes'', example_test ''FAIL'' ''no'']
          [Suite ''Root.A.X'' ''X'' ''s1-s1-s1'' example_criticality [example_test ''FAIL'' ''yes''] []]]"

definition example_tag_stats :: tag_statistics where
  "example_tag_stats =
     \<lparr>normalize = (\<lambda>s. s), stats = [], ts_include = simple_patterns [],
      ts_exclude = simple_patterns [], ts_info = \<lparr>info_docs = [], info_links = []\<rparr>,
      ts_combine = []\<rparr>"

definition example_combined_stats :: tag_statistics where
  "example_combined_stats =
     \<lparr>normalize = (\<lambda>s. s),
      stats = [(''A-comb'', TagStat_init ''A-comb'' [] [] False False ''a'')],
      ts_include = simple_patterns [''keep''],
      ts_exclude = simple_patterns [], ts_info = \<lparr>info_docs = [], info_links = []\<rparr>,
      ts_combine = [\<lparr>comb_pattern = ''a'', comb_matcher = simple_patterns [''a''], comb_name = ''A-comb''\<rparr>]\<rparr>"

definition example_tag :: "string \<Rightarrow> bool \<Rightarrow> bool \<Rightarrow> string \<Rightarrow> string \<times> tag_stat" where
  "example_tag n crit non_crit comb = (n, TagStat_init n [] [] crit non_crit comb)"

definition example_sorted_stats :: tag_statistics where
  "example_sorted_stats =
     example_tag_stats\<lparr>stats :=
       [example_tag ''F'' False False [], example_tag ''D'' False False ''x&y'',
        example_tag ''B'' True False [], example_tag ''C'' False True [],
        example_tag ''E'' False False [], example_tag ''A'' True False []]\<rparr>"

definition example_two_marks :: tag_statistics where
  "example_two_marks =
     example_tag_stats\<lparr>stats :=
       [(''z'', (TagStat_init ''z'' [] [] True True [])
                 \<lparr>passed := 1, tests := [\<lparr>status = ''PASS'', test_critical = ''no'', tags = [''z'', ''a'']\<rparr>]\<rparr>),
        (''a'', (TagStat_init ''a'' [] [] True False [])
                 \<lparr>passed := 1, tests := [\<lparr>status = ''PASS'', test_critical = ''no'', tags = [''z'', ''a'']\<rparr>]\<rparr>)]\<rparr>"

text \<open>
  \<^verbatim>\<open>TagStatInfo([], rules).get_links(tag)\<close>: the links of a tag under the link rules
  \<open>rules\<close>, with no documentation patterns.
\<close>

definition links_for :: "(string \<times> string \<times> string) list \<Rightarrow> string \<Rightarrow> error + (string \<times> string) option list" where
  "links_for rules tag =
     (case TagStatInfo_init simple_patterns [] rules of
        Inl e \<Rightarrow> Inl e
      | Inr info \<Rightarrow> Inr (get_links info tag))"

section \<open>Properties of Stat\<close>

text \<open>
  C8. One call of \<^verbatim>\<open>Stat.add_test\<close> raises exactly one of the two counters, by
  exactly one, and leaves the other as it was; the total grows by exactly one.
\<close>

theorem Stat_add_test_exactly_one:
  "((passed (Stat_add_test self test) = passed self + 1 \<and>
     failed (Stat_add_test self test) = failed self)
    \<or> (passed (Stat_add_test self test) = passed self \<and>
       failed (Stat_add_test self test) = failed self + 1))
   \<and> (passed (Stat_add_test self test) = passed self + 1)
       \<noteq> (failed (Stat_add_test self test) = failed self + 1)
   \<and> Stat_total (Stat_add_test self test) = Stat_total self + 1"
  by (simp add: Stat_add_test_def Stat_total_def)

theorem Stat_add_test_exactly_one_witness:
  "passed (Stat_add_test (Stat_init ''s'') \<lparr>status = ''FAIL'', test_critical = ''yes'', tags = []\<rparr>) = 0
   \<and> failed (Stat_add_test (Stat_init ''s'') \<lparr>status = ''FAIL'', test_critical = ''yes'', tags = []\<rparr>) = 1
   \<and> Stat_total (Stat_add_test (Stat_init ''s'') \<lparr>status = ''FAIL'', test_critical = ''yes'', tags = []\<rparr>) = 1"
  using Stat_add_test_exactly_one
    [of "Stat_init ''s''" "\<lparr>status = ''FAIL'', test_critical = ''yes'', tags = []\<rparr>"]
  by (simp add: Stat_add_test_def Stat_init_def Stat_total_def)

text \<open>
  C9. A test counts as passed only when its status is the exact string \<^verbatim>\<open>PASS\<close>;
  with any other status the failed counter is raised. The operation has no error
  branch: it is a total function of the record and the test.
\<close>

theorem Stat_add_test_status:
  "(status test = ''PASS'' \<longrightarrow>
      Stat_add_test self test = self\<lparr>passed := passed self + 1\<rparr>)
   \<and> (status test \<noteq> ''PASS'' \<longrightarrow>
      Stat_add_test self test = self\<lparr>failed := failed self + 1\<rparr>)"
  by (simp add: Stat_add_test_def)

theorem Stat_add_test_status_witness:
  "Stat_add_test (Stat_init ''s'') \<lparr>status = ''PASS'', test_critical = ''no'', tags = []\<rparr>
     = \<lparr>name = ''s'', passed = 1, failed = 0\<rparr>
   \<and> Stat_add_test (Stat_init ''s'') \<lparr>status = ''pass'', test_critical = ''no'', tags = []\<rparr>
     = \<lparr>name = ''s'', passed = 0, failed = 1\<rparr>"
  using Stat_add_test_status
    [of "\<lparr>status = ''PASS'', test_critical = ''no'', tags = []\<rparr>" "Stat_init ''s''"]
    Stat_add_test_status
    [of "\<lparr>status = ''pass'', test_critical = ''no'', tags = []\<rparr>" "Stat_init ''s''"]
  by (simp add: Stat_init_def)

text \<open>
  C10. \<^verbatim>\<open>Stat.fail_all\<close> moves every passed test to the failed counter: passed
  becomes 0, failed becomes the former total, the total is unchanged, and a second
  call changes nothing.
\<close>

theorem fail_all_total_idempotent:
  "passed (fail_all self) = 0
   \<and> failed (fail_all self) = passed self + failed self
   \<and> Stat_total (fail_all self) = Stat_total self
   \<and> fail_all (fail_all self) = fail_all self"
  by (simp add: fail_all_def Stat_total_def)

theorem fail_all_total_idempotent_witness:
  "fail_all \<lparr>name = ''s'', passed = 3, failed = 4\<rparr> = \<lparr>name = ''s'', passed = 0, failed = 7\<rparr>
   \<and> fail_all (fail_all \<lparr>name = ''s'', passed = 3, failed = 4\<rparr>)
       = \<lparr>name = ''s'', passed = 0, failed = 7\<rparr>"
  using fail_all_total_idempotent [of "\<lparr>name = ''s'', passed = 3, failed = 4\<rparr>"]
  by (simp add: fail_all_def)

section \<open>The tag aggregator never raises\<close>

lemma map_of_dict_update:
  "map_of (dict_update k v d) k' = (if k' = k then Some v else map_of d k')"
  by (induction d) auto

lemma stats_setitem_fields [simp]:
  "normalize (stats_setitem self key v) = normalize self"
  "ts_combine (stats_setitem self key v) = ts_combine self"
  "ts_include (stats_setitem self key v) = ts_include self"
  "ts_exclude (stats_setitem self key v) = ts_exclude self"
  "ts_info (stats_setitem self key v) = ts_info self"
  by (simp_all add: stats_setitem_def)

lemma stats_contains_setitem:
  "stats_contains (stats_setitem self key v) k =
     (normalize self k = normalize self key \<or> stats_contains self k)"
  by (auto simp: stats_contains_def stats_setitem_def map_of_dict_update)

lemma stats_getitem_setitem:
  "stats_getitem (stats_setitem self key v) k =
     (if normalize self k = normalize self key then Inr v else stats_getitem self k)"
  by (simp add: stats_getitem_def stats_setitem_def map_of_dict_update)

lemma stats_getitem_contains:
  "stats_contains self k \<Longrightarrow> \<exists>st. stats_getitem self k = Inr st"
  by (auto simp: stats_contains_def stats_getitem_def)

lemma same_config_refl [simp]: "same_config a a"
  by (simp add: same_config_def)

lemma same_config_trans: "same_config a b \<Longrightarrow> same_config b c \<Longrightarrow> same_config a c"
  by (simp add: same_config_def)

lemma same_config_setitem: "same_config a (stats_setitem a key v)"
  by (simp add: same_config_def stats_contains_setitem)

lemma add_tags_statistics_loop_total:
  "\<exists>self'. add_tags_statistics_loop self test crit tgs = Inr self' \<and> same_config self self'"
proof (induction tgs arbitrary: self)
  case Nil
  show ?case by simp
next
  case (Cons tag rest)
  show ?case
  proof (cases "is_included self tag")
    case False
    then show ?thesis using Cons.IH [of self] by simp
  next
    case True
    define self1 where "self1 =
      (if \<not> stats_contains self tag
       then stats_setitem self tag
              (TagStat_init tag (get_doc (ts_info self) tag) (get_links (ts_info self) tag)
                 (is_critical crit tag) (is_non_critical crit tag) [])
       else self)"
    have c1: "same_config self self1"
      by (simp add: self1_def same_config_setitem)
    have "stats_contains self1 tag"
      by (simp add: self1_def stats_contains_setitem)
    then obtain st where st: "stats_getitem self1 tag = Inr st"
      using stats_getitem_contains by blast
    obtain self' where r: "add_tags_statistics_loop
        (stats_setitem self1 tag (TagStat_add_test st test)) test crit rest = Inr self'"
      and c2: "same_config (stats_setitem self1 tag (TagStat_add_test st test)) self'"
      using Cons.IH by blast
    have "same_config self self'"
      using c1 c2 same_config_setitem same_config_trans by blast
    moreover have "add_tags_statistics_loop self test crit (tag # rest) = Inr self'"
      using True st r by (simp add: self1_def [symmetric] Let_def)
    ultimately show ?thesis by blast
  qed
qed

lemma add_combined_statistics_loop_total:
  "list_all (\<lambda>comb. stats_contains self (comb_name comb)) combs \<Longrightarrow>
   \<exists>self'. add_combined_statistics_loop self test combs = Inr self' \<and> same_config self self'"
proof (induction combs arbitrary: self)
  case Nil
  show ?case by simp
next
  case (Cons comb rest)
  show ?case
  proof (cases "CombinedTag_match comb (tags test)")
    case False
    then show ?thesis using Cons.IH [of self] Cons.prems by simp
  next
    case True
    from Cons.prems obtain st where st: "stats_getitem self (comb_name comb) = Inr st"
      using stats_getitem_contains by auto
    let ?s1 = "stats_setitem self (comb_name comb) (TagStat_add_test st test)"
    have "list_all (\<lambda>c. stats_contains ?s1 (comb_name c)) rest"
      using Cons.prems by (auto simp: list_all_iff stats_contains_setitem)
    then obtain self' where r: "add_combined_statistics_loop ?s1 test rest = Inr self'"
      and c2: "same_config ?s1 self'"
      using Cons.IH by blast
    have "same_config self self'"
      using c2 same_config_setitem same_config_trans by blast
    moreover have "add_combined_statistics_loop self test (comb # rest) = Inr self'"
      using True st r by simp
    ultimately show ?thesis by blast
  qed
qed

lemma same_config_seeded: "same_config a b \<Longrightarrow> combined_seeded a \<Longrightarrow> combined_seeded b"
  by (auto simp: same_config_def combined_seeded_def list_all_iff)

lemma TagStatistics_add_test_total:
  assumes "combined_seeded self"
  shows "\<exists>self'. TagStatistics_add_test self test crit = Inr self' \<and> combined_seeded self'"
proof -
  obtain s1 where a: "add_tags_statistics self test crit = Inr s1" and c1: "same_config self s1"
    using add_tags_statistics_loop_total unfolding add_tags_statistics_def by blast
  have seeded1: "combined_seeded s1"
    using c1 assms same_config_seeded by blast
  then obtain s2 where b: "add_combined_statistics s1 test = Inr s2" and c2: "same_config s1 s2"
    using add_combined_statistics_loop_total [of s1 "ts_combine s1" test]
    unfolding add_combined_statistics_def combined_seeded_def by blast
  have "combined_seeded s2"
    using c2 seeded1 same_config_seeded by blast
  then show ?thesis
    using a b by (simp add: TagStatistics_add_test_def)
qed

section \<open>The suite aggregator\<close>

lemma counted_Nil [simp]: "counted st [] = st"
  by (simp add: counted_def)

lemma counted_append: "counted (counted st xs) ys = counted st (xs @ ys)"
  by (simp add: counted_def)

lemma counted_commute: "counted st (xs @ ys) = counted st (ys @ xs)"
  by (simp add: counted_def)

lemma counted_add_test: "Stat_add_test st t = counted st [t]"
  by (simp add: counted_def Stat_add_test_def)

lemma add_stat_counted:
  "add_stat st (counted (SuiteStat_init s) ts) = counted st ts"
  by (simp add: add_stat_def counted_def SuiteStat_init_def)

lemma Stat_total_counted:
  "Stat_total (counted st ts) = Stat_total st + int (length ts)"
proof -
  have "length (filter (\<lambda>t. status t = ''PASS'') ts) + length (filter (\<lambda>t. status t \<noteq> ''PASS'') ts)
        = length ts"
    using sum_length_filter_compl [of "\<lambda>t. status t = ''PASS''" ts] by simp
  then show ?thesis
    by (simp add: counted_def Stat_total_def)
qed

lemma critical_tests_append [simp]:
  "critical_tests (xs @ ys) = critical_tests xs @ critical_tests ys"
  by (simp add: critical_tests_def)

lemma tested_Nil [simp]: "tested obj [] = obj"
  by (simp add: tested_def critical_tests_def)

lemma tested_append: "tested (tested obj xs) ys = tested obj (xs @ ys)"
  by (simp add: tested_def counted_append)

lemma SuiteStatistics_add_test_tested: "SuiteStatistics_add_test obj t = tested obj [t]"
  by (simp add: SuiteStatistics_add_test_def tested_def counted_add_test critical_tests_def Let_def)

lemma visit_tests_spec:
  assumes "combined_seeded (tag_stats self)" and "current_suite self \<noteq> None"
  shows "\<exists>ts'. visit_tests self tsts =
           Inr (self\<lparr>heap := (heap self)(current_suite_stat self :=
                                  tested (heap self (current_suite_stat self)) tsts),
                     tag_stats := ts'\<rparr>)
           \<and> combined_seeded ts'"
  using assms
proof (induction tsts arbitrary: self)
  case Nil
  have "visit_tests self [] =
          Inr (self\<lparr>heap := (heap self)(current_suite_stat self :=
                 tested (heap self (current_suite_stat self)) []), tag_stats := tag_stats self\<rparr>)"
    by simp
  then show ?case using Nil.prems(1) by blast
next
  case (Cons t rest)
  from Cons.prems obtain s where s: "current_suite self = Some s" by auto
  obtain ts1 where a: "TagStatistics_add_test (tag_stats self) t (suite_critical s) = Inr ts1"
    and seeded1: "combined_seeded ts1"
    using TagStatistics_add_test_total [OF Cons.prems(1)] by blast
  let ?cur = "current_suite_stat self"
  let ?self1 = "self\<lparr>heap := (heap self)(?cur := tested (heap self ?cur) [t]), tag_stats := ts1\<rparr>"
  have v: "visit_test self t = Inr ?self1"
    using s a by (simp add: visit_test_def SuiteStatistics_add_test_tested Let_def)
  have "combined_seeded (tag_stats ?self1)" "current_suite ?self1 \<noteq> None"
    using seeded1 s by simp_all
  from Cons.IH [OF this] obtain ts' where
    r: "visit_tests ?self1 rest =
          Inr (?self1\<lparr>heap := (heap ?self1)(current_suite_stat ?self1 :=
                 tested (heap ?self1 (current_suite_stat ?self1)) rest), tag_stats := ts'\<rparr>)"
    and seeded': "combined_seeded ts'"
    by blast
  have "visit_tests self (t # rest) =
          Inr (self\<lparr>heap := (heap self)(?cur := tested (heap self ?cur) (t # rest)), tag_stats := ts'\<rparr>)"
    using v r by (simp add: tested_append)
  then show ?case using seeded' by blast
qed

lemma visited_ready: "ready b \<Longrightarrow> visited b b' m tsts addrs expected \<Longrightarrow> ready b'"
  by (simp add: ready_def visited_def)

lemma tested_suites [simp]: "ss_suites (tested obj ts) = ss_suites obj"
  by (simp add: tested_def)

lemma tested_suites_update:
  "tested (obj\<lparr>ss_suites := x\<rparr>) ts = (tested obj ts)\<lparr>ss_suites := x\<rparr>"
  by (simp add: tested_def)

lemma visited_trans:
  assumes r: "ready b"
    and v1: "visited b b1 m1 t1 a1 e1"
    and v2: "visited b1 b2 m2 t2 a2 e2"
  shows "visited b b2 (m1 + m2) (t1 @ t2) (a1 @ a2)
           (\<lambda>a. if a < next_addr b + m1 then e1 a else e2 a)"
proof -
  let ?cur = "current_suite_stat b"
  have cur: "?cur < next_addr b" using r by (simp add: ready_def)
  have c1: "current_suite_stat b1 = ?cur" and n1: "next_addr b1 = next_addr b + m1"
    using v1 by (simp_all add: visited_def)
  have h1: "heap b1 ?cur = (tested (heap b ?cur) t1)\<lparr>ss_suites := ss_suites (heap b ?cur) @ a1\<rparr>"
    using v1 by (simp add: visited_def)
  have h2: "heap b2 ?cur = (tested (heap b1 ?cur) t2)\<lparr>ss_suites := ss_suites (heap b1 ?cur) @ a2\<rparr>"
    using v2 c1 by (simp add: visited_def)
  have f1: "\<And>a. a \<noteq> ?cur \<Longrightarrow> a < next_addr b \<or> next_addr b + m1 \<le> a \<Longrightarrow> heap b1 a = heap b a"
    using v1 by (simp add: visited_def)
  have f2: "\<And>a. a \<noteq> ?cur \<Longrightarrow> a < next_addr b + m1 \<or> next_addr b + m1 + m2 \<le> a \<Longrightarrow> heap b2 a = heap b1 a"
    using v2 c1 n1 by (simp add: visited_def)
  have x1: "\<And>a. next_addr b \<le> a \<Longrightarrow> a < next_addr b + m1 \<Longrightarrow> e1 a = Some (heap b1 a)"
    using v1 by (simp add: visited_def)
  have x2: "\<And>a. next_addr b + m1 \<le> a \<Longrightarrow> a < next_addr b + m1 + m2 \<Longrightarrow> e2 a = Some (heap b2 a)"
    using v2 n1 by (simp add: visited_def)
  have A: "heap b2 ?cur = (tested (heap b ?cur) (t1 @ t2))\<lparr>ss_suites := ss_suites (heap b ?cur) @ a1 @ a2\<rparr>"
    by (simp add: h2 h1 tested_suites_update tested_append)
  have B: "\<forall>a. a \<noteq> ?cur \<and> (a < next_addr b \<or> next_addr b + (m1 + m2) \<le> a) \<longrightarrow> heap b2 a = heap b a"
  proof (intro allI impI)
    fix a assume a: "a \<noteq> ?cur \<and> (a < next_addr b \<or> next_addr b + (m1 + m2) \<le> a)"
    then have "heap b2 a = heap b1 a" using f2 [of a] by auto
    moreover have "heap b1 a = heap b a" using a f1 [of a] by auto
    ultimately show "heap b2 a = heap b a" by simp
  qed
  have C: "\<forall>a. next_addr b \<le> a \<and> a < next_addr b + (m1 + m2) \<longrightarrow>
             (if a < next_addr b + m1 then e1 a else e2 a) = Some (heap b2 a)"
  proof (intro allI impI)
    fix a assume a: "next_addr b \<le> a \<and> a < next_addr b + (m1 + m2)"
    show "(if a < next_addr b + m1 then e1 a else e2 a) = Some (heap b2 a)"
    proof (cases "a < next_addr b + m1")
      case True
      then have "heap b2 a = heap b1 a" using f2 [of a] a cur by auto
      then show ?thesis using True a x1 [of a] by simp
    next
      case False
      then show ?thesis using a x2 [of a] by simp
    qed
  qed
  show ?thesis
    unfolding visited_def
    using v1 v2 A B C by (simp add: visited_def)
qed

lemma visited_tests:
  assumes "ready b" and "current_suite b \<noteq> None"
  shows "\<exists>b'. visit_tests b tsts = Inr b' \<and> visited b b' 0 tsts [] (\<lambda>a. None)"
proof -
  from assms obtain ts' where
    v: "visit_tests b tsts =
          Inr (b\<lparr>heap := (heap b)(current_suite_stat b := tested (heap b (current_suite_stat b)) tsts),
                 tag_stats := ts'\<rparr>)"
    and s: "combined_seeded ts'"
    using visit_tests_spec [of b tsts] by (auto simp: ready_def)
  have "visited b (b\<lparr>heap := (heap b)(current_suite_stat b := tested (heap b (current_suite_stat b)) tsts),
                 tag_stats := ts'\<rparr>) 0 tsts [] (\<lambda>a. None)"
    using s assms(2) by (simp add: visited_def)
  then show ?thesis using v by blast
qed

lemma visited_refl:
  "ready b \<Longrightarrow> current_suite b \<noteq> None \<Longrightarrow> visited b b 0 [] [] (\<lambda>a. None)"
  by (simp add: visited_def ready_def)

lemma visit_suites_spec:
  assumes IH: "\<And>s b. s \<in> set ss \<Longrightarrow> ready b \<Longrightarrow>
      \<exists>b'. visit_suite tf b s = Inr b' \<and>
        visited b b' (nodes s) (all_tests s)
          (if shown (suite_stat_level b) (length (parents b)) then [next_addr b] else [])
          (obj_at (suite_stat_level b) (Suc (length (parents b))) (next_addr b) s)"
    and r: "ready b" and c: "current_suite b \<noteq> None"
  shows "\<exists>b'. visit_suites tf b ss = Inr b' \<and>
        visited b b' (sum_list (map nodes ss)) (concat (map all_tests ss))
          (if shown (suite_stat_level b) (length (parents b)) then child_addrs (next_addr b) ss else [])
          (objs_at (suite_stat_level b) (Suc (length (parents b))) (next_addr b) ss)"
  using IH r c
proof (induction ss arbitrary: b)
  case Nil
  show ?case using Nil.prems(2,3) by (simp add: visited_def ready_def)
next
  case (Cons s rest)
  obtain b1 where v1: "visit_suite tf b s = Inr b1"
    and p1: "visited b b1 (nodes s) (all_tests s)
          (if shown (suite_stat_level b) (length (parents b)) then [next_addr b] else [])
          (obj_at (suite_stat_level b) (Suc (length (parents b))) (next_addr b) s)"
    using Cons.prems(1) [of s b] Cons.prems(2) by auto
  have r1: "ready b1" using visited_ready [OF Cons.prems(2) p1] .
  have c1: "current_suite b1 \<noteq> None" using p1 by (simp add: visited_def)
  have e1: "suite_stat_level b1 = suite_stat_level b" "parents b1 = parents b"
    "next_addr b1 = next_addr b + nodes s"
    using p1 by (simp_all add: visited_def)
  have "\<exists>b'. visit_suites tf b1 rest = Inr b' \<and>
        visited b1 b' (sum_list (map nodes rest)) (concat (map all_tests rest))
          (if shown (suite_stat_level b1) (length (parents b1)) then child_addrs (next_addr b1) rest else [])
          (objs_at (suite_stat_level b1) (Suc (length (parents b1))) (next_addr b1) rest)"
    using Cons.IH [of b1] Cons.prems(1) r1 c1 by simp
  then obtain b2 where v2: "visit_suites tf b1 rest = Inr b2"
    and p2': "visited b1 b2 (sum_list (map nodes rest)) (concat (map all_tests rest))
          (if shown (suite_stat_level b1) (length (parents b1)) then child_addrs (next_addr b1) rest else [])
          (objs_at (suite_stat_level b1) (Suc (length (parents b1))) (next_addr b1) rest)"
    by blast
  have p2: "visited b1 b2 (sum_list (map nodes rest)) (concat (map all_tests rest))
          (if shown (suite_stat_level b) (length (parents b)) then child_addrs (next_addr b + nodes s) rest else [])
          (objs_at (suite_stat_level b) (Suc (length (parents b))) (next_addr b + nodes s) rest)"
    using p2' unfolding e1 .
  have t: "visited b b2 (nodes s + sum_list (map nodes rest)) (all_tests s @ concat (map all_tests rest))
          ((if shown (suite_stat_level b) (length (parents b)) then [next_addr b] else [])
            @ (if shown (suite_stat_level b) (length (parents b)) then child_addrs (next_addr b + nodes s) rest else []))
          (\<lambda>a. if a < next_addr b + nodes s
                then obj_at (suite_stat_level b) (Suc (length (parents b))) (next_addr b) s a
                else objs_at (suite_stat_level b) (Suc (length (parents b))) (next_addr b + nodes s) rest a)"
    using visited_trans [OF Cons.prems(2) p1 p2] .
  have "(\<lambda>a. if a < next_addr b + nodes s
                then obj_at (suite_stat_level b) (Suc (length (parents b))) (next_addr b) s a
                else objs_at (suite_stat_level b) (Suc (length (parents b))) (next_addr b + nodes s) rest a)
        = objs_at (suite_stat_level b) (Suc (length (parents b))) (next_addr b) (s # rest)"
    by (rule ext) simp
  with t have "visited b b2 (sum_list (map nodes (s # rest))) (concat (map all_tests (s # rest)))
          (if shown (suite_stat_level b) (length (parents b)) then child_addrs (next_addr b) (s # rest) else [])
          (objs_at (suite_stat_level b) (Suc (length (parents b))) (next_addr b) (s # rest))"
    by (cases "shown (suite_stat_level b) (length (parents b))") simp_all
  moreover have "visit_suites tf b (s # rest) = Inr b2"
    using v1 v2 by simp
  ultimately show ?case by blast
qed

lemma tested_commute: "tested obj (xs @ ys) = tested obj (ys @ xs)"
  using counted_commute [of "ss_all obj" xs ys]
    counted_commute [of "ss_critical obj" "critical_tests xs" "critical_tests ys"]
  by (simp add: tested_def)

lemma visited_cong:
  assumes "visited b b' m t a e"
    and "tested (heap b (current_suite_stat b)) t = tested (heap b (current_suite_stat b)) t'"
    and "\<And>x. next_addr b \<le> x \<Longrightarrow> x < next_addr b + m \<Longrightarrow> e' x = e x"
  shows "visited b b' m t' a e'"
  using assms by (simp add: visited_def)

lemma start_suite_fields:
  "parents (start_suite b s) = parents b @ [current_suite_stat b]"
  "current_suite_stat (start_suite b s) = next_addr b"
  "next_addr (start_suite b s) = Suc (next_addr b)"
  "suite_stat_level (start_suite b s) = suite_stat_level b"
  "tag_stats (start_suite b s) = tag_stats b"
  "current_suite (start_suite b s) = Some s"
  by (simp_all add: start_suite_def Let_def)

lemma start_suite_heap:
  assumes "current_suite_stat b < next_addr b"
  shows "heap (start_suite b s) (next_addr b) = SuiteStatistics_init s"
    and "heap (start_suite b s) (current_suite_stat b) =
           (heap b (current_suite_stat b))
             \<lparr>ss_suites := ss_suites (heap b (current_suite_stat b))
                @ (if shown (suite_stat_level b) (length (parents b)) then [next_addr b] else [])\<rparr>"
    and "\<And>a. a \<noteq> current_suite_stat b \<Longrightarrow> a \<noteq> next_addr b \<Longrightarrow> heap (start_suite b s) a = heap b a"
  using assms by (auto simp: start_suite_def Let_def shown_def)

lemma end_suite_fields:
  assumes "parents b = ps @ [p]"
  shows "parents (end_suite b s) = ps"
    and "current_suite_stat (end_suite b s) = p"
    and "next_addr (end_suite b s) = next_addr b"
    and "suite_stat_level (end_suite b s) = suite_stat_level b"
    and "tag_stats (end_suite b s) = tag_stats b"
    and "current_suite (end_suite b s) = current_suite b"
  using assms by (simp_all add: end_suite_def Let_def)

lemma end_suite_heap:
  assumes "parents b = ps @ [p]" and "p \<noteq> current_suite_stat b"
  shows "heap (end_suite b s) p =
           (heap b p)\<lparr>ss_all := add_stat (ss_all (heap b p)) (ss_all (heap b (current_suite_stat b))),
                      ss_critical := add_stat (ss_critical (heap b p)) (ss_critical (heap b (current_suite_stat b)))\<rparr>"
    and "\<And>a. a \<noteq> p \<Longrightarrow> heap (end_suite b s) a = heap b a"
  using assms by (simp_all add: end_suite_def Let_def)

lemma tested_init:
  "(tested (SuiteStatistics_init s) (all_tests s))\<lparr>ss_suites := ss_suites (SuiteStatistics_init s) @
       (if shown level depth then child_addrs (Suc n) (suite_suites s) else [])\<rparr>
   = finished level depth n s"
  by (simp add: tested_def SuiteStatistics_init_def finished_def)

lemma visit_suite_spec:
  "ready b \<Longrightarrow>
   \<exists>b'. visit_suite tf b s = Inr b' \<and>
     visited b b' (nodes s) (all_tests s)
       (if shown (suite_stat_level b) (length (parents b)) then [next_addr b] else [])
       (obj_at (suite_stat_level b) (Suc (length (parents b))) (next_addr b) s)"
proof (induction s arbitrary: b)
  case (Suite ln nm i c ts ss)
  let ?s = "Suite ln nm i c ts ss"
  let ?n = "next_addr b"
  let ?p = "current_suite_stat b"
  let ?lv = "suite_stat_level b"
  let ?k = "length (parents b)"
  let ?M = "sum_list (map nodes ss)"
  let ?C = "concat (map all_tests ss)"
  let ?A = "if shown ?lv (Suc ?k) then child_addrs (Suc ?n) ss else []"
  let ?E = "objs_at ?lv (Suc (Suc ?k)) (Suc ?n) ss"
  define b1 where "b1 = start_suite b ?s"
  have pn: "?p < ?n" and seeded: "combined_seeded (tag_stats b)"
    using Suite.prems by (simp_all add: ready_def)
  have f1: "parents b1 = parents b @ [?p]" "current_suite_stat b1 = ?n" "next_addr b1 = Suc ?n"
    "suite_stat_level b1 = ?lv" "tag_stats b1 = tag_stats b" "current_suite b1 = Some ?s"
    unfolding b1_def by (rule start_suite_fields)+
  have h1n: "heap b1 ?n = SuiteStatistics_init ?s"
    and h1p: "heap b1 ?p = (heap b ?p)\<lparr>ss_suites := ss_suites (heap b ?p)
                @ (if shown ?lv ?k then [?n] else [])\<rparr>"
    and h1f: "\<And>a. a \<noteq> ?p \<Longrightarrow> a \<noteq> ?n \<Longrightarrow> heap b1 a = heap b a"
    unfolding b1_def using start_suite_heap [OF pn] by blast+
  have r1: "ready b1" using seeded f1 by (simp add: ready_def)
  have c1: "current_suite b1 \<noteq> None" using f1 by simp
  have IH: "\<And>x b. x \<in> set ss \<Longrightarrow> ready b \<Longrightarrow>
      \<exists>b'. visit_suite tf b x = Inr b' \<and>
        visited b b' (nodes x) (all_tests x)
          (if shown (suite_stat_level b) (length (parents b)) then [next_addr b] else [])
          (obj_at (suite_stat_level b) (Suc (length (parents b))) (next_addr b) x)"
    using Suite.IH by blast
  have mid: "\<exists>b3. (if tf
               then (case visit_tests b1 ts of
                       Inl e \<Rightarrow> Inl e
                     | Inr self2 \<Rightarrow> visit_suites tf self2 ss)
               else (case visit_suites tf b1 ss of
                       Inl e \<Rightarrow> Inl e
                     | Inr self2 \<Rightarrow> visit_tests self2 ts)) = Inr b3
             \<and> visited b1 b3 ?M (ts @ ?C) ?A ?E"
  proof (cases tf)
    case True
    obtain b2 where t: "visit_tests b1 ts = Inr b2" and vt: "visited b1 b2 0 ts [] (\<lambda>a. None)"
      using visited_tests [OF r1 c1] by blast
    have r2: "ready b2" using visited_ready [OF r1 vt] .
    have e2: "suite_stat_level b2 = ?lv" "parents b2 = parents b @ [?p]" "next_addr b2 = Suc ?n"
      and c2: "current_suite b2 \<noteq> None"
      using vt f1 by (simp_all add: visited_def)
    obtain b3 where s3: "visit_suites tf b2 ss = Inr b3"
      and vs': "visited b2 b3 ?M ?C
          (if shown (suite_stat_level b2) (length (parents b2)) then child_addrs (next_addr b2) ss else [])
          (objs_at (suite_stat_level b2) (Suc (length (parents b2))) (next_addr b2) ss)"
      using visit_suites_spec [OF IH r2 c2] by blast
    have vs: "visited b2 b3 ?M ?C ?A ?E"
      using vs' unfolding e2 by simp
    have x: "visited b1 b3 ?M (ts @ ?C) ?A (\<lambda>a. if a < next_addr b1 then None else ?E a)"
      using visited_trans [OF r1 vt vs] by simp
    have "visited b1 b3 ?M (ts @ ?C) ?A ?E"
      by (rule visited_cong [OF x]) simp_all
    then show ?thesis using True t s3 by simp
  next
    case False
    obtain b2 where s2: "visit_suites tf b1 ss = Inr b2"
      and vs': "visited b1 b2 ?M ?C
          (if shown (suite_stat_level b1) (length (parents b1)) then child_addrs (next_addr b1) ss else [])
          (objs_at (suite_stat_level b1) (Suc (length (parents b1))) (next_addr b1) ss)"
      using visit_suites_spec [OF IH r1 c1] by blast
    have vs: "visited b1 b2 ?M ?C ?A ?E"
      using vs' unfolding f1 by simp
    have r2: "ready b2" using visited_ready [OF r1 vs] .
    have c2: "current_suite b2 \<noteq> None" using vs by (simp add: visited_def)
    obtain b3 where t: "visit_tests b2 ts = Inr b3" and vt: "visited b2 b3 0 ts [] (\<lambda>a. None)"
      using visited_tests [OF r2 c2] by blast
    have x: "visited b1 b3 ?M (?C @ ts) ?A (\<lambda>a. if a < next_addr b1 + ?M then ?E a else None)"
      using visited_trans [OF r1 vs vt] by simp
    have "visited b1 b3 ?M (ts @ ?C) ?A ?E"
      by (rule visited_cong [OF x]) (simp_all add: tested_commute)
    then show ?thesis using False s2 t by simp
  qed
  then obtain b3 where m3: "(if tf
               then (case visit_tests b1 ts of
                       Inl e \<Rightarrow> Inl e
                     | Inr self2 \<Rightarrow> visit_suites tf self2 ss)
               else (case visit_suites tf b1 ss of
                       Inl e \<Rightarrow> Inl e
                     | Inr self2 \<Rightarrow> visit_tests self2 ts)) = Inr b3"
    and v3: "visited b1 b3 ?M (ts @ ?C) ?A ?E"
    by blast
  have res: "visit_suite tf b ?s = Inr (end_suite b3 ?s)"
  proof -
    have "visit_suite tf b ?s =
        (case (if tf
               then (case visit_tests b1 ts of
                       Inl e \<Rightarrow> Inl e
                     | Inr self2 \<Rightarrow> visit_suites tf self2 ss)
               else (case visit_suites tf b1 ss of
                       Inl e \<Rightarrow> Inl e
                     | Inr self2 \<Rightarrow> visit_tests self2 ts)) of
           Inl e \<Rightarrow> Inl e
         | Inr self3 \<Rightarrow> Inr (end_suite self3 ?s))"
      by (simp only: visit_suite.simps Let_def b1_def)
    then show ?thesis by (simp only: m3 sum.case)
  qed
  have g3: "parents b3 = parents b @ [?p]" "current_suite_stat b3 = ?n"
    "next_addr b3 = Suc ?n + ?M" "suite_stat_level b3 = ?lv"
    "combined_seeded (tag_stats b3)" "current_suite b3 \<noteq> None"
    using v3 f1 by (simp_all add: visited_def)
  have h3n: "heap b3 ?n = finished ?lv (Suc ?k) ?n ?s"
  proof -
    have e: "heap b3 ?n = (tested (SuiteStatistics_init ?s) (all_tests ?s))
         \<lparr>ss_suites := ss_suites (SuiteStatistics_init ?s) @
            (if shown ?lv (Suc ?k) then child_addrs (Suc ?n) (suite_suites ?s) else [])\<rparr>"
      using v3 f1 h1n by (simp add: visited_def)
    show ?thesis unfolding e by (rule tested_init)
  qed
  have h3f: "\<And>a. a \<noteq> ?n \<Longrightarrow> a < Suc ?n \<or> Suc ?n + ?M \<le> a \<Longrightarrow> heap b3 a = heap b1 a"
    using v3 f1 by (simp add: visited_def)
  have h3x: "\<And>a. Suc ?n \<le> a \<Longrightarrow> a < Suc ?n + ?M \<Longrightarrow> ?E a = Some (heap b3 a)"
    using v3 f1 by (simp add: visited_def)
  let ?b' = "end_suite b3 ?s"
  have pne: "?p \<noteq> current_suite_stat b3" using g3 pn by simp
  have k1: "parents ?b' = parents b" "current_suite_stat ?b' = ?p" "next_addr ?b' = ?n + nodes ?s"
    "suite_stat_level ?b' = ?lv" "combined_seeded (tag_stats ?b')" "current_suite ?b' \<noteq> None"
    using end_suite_fields [OF g3(1), of ?s] g3 by simp_all
  have hp: "heap ?b' ?p = (tested (heap b ?p) (all_tests ?s))
              \<lparr>ss_suites := ss_suites (heap b ?p) @ (if shown ?lv ?k then [?n] else [])\<rparr>"
  proof -
    have "heap b3 ?p = heap b1 ?p" using h3f [of ?p] pn by simp
    then have e: "heap b3 ?p = (heap b ?p)\<lparr>ss_suites := ss_suites (heap b ?p)
                @ (if shown ?lv ?k then [?n] else [])\<rparr>"
      using h1p by simp
    show ?thesis
      using end_suite_heap(1) [OF g3(1) pne, of ?s]
      by (simp add: g3(2) h3n e finished_def add_stat_counted tested_def)
  qed
  have hf: "\<forall>a. a \<noteq> ?p \<and> (a < ?n \<or> ?n + nodes ?s \<le> a) \<longrightarrow> heap ?b' a = heap b a"
  proof (intro allI impI)
    fix a assume a: "a \<noteq> ?p \<and> (a < ?n \<or> ?n + nodes ?s \<le> a)"
    have "heap ?b' a = heap b3 a" using end_suite_heap(2) [OF g3(1) pne] a by simp
    also have "\<dots> = heap b1 a" using h3f [of a] a by auto
    also have "\<dots> = heap b a" using h1f [of a] a by auto
    finally show "heap ?b' a = heap b a" .
  qed
  have hx: "\<forall>a. ?n \<le> a \<and> a < ?n + nodes ?s \<longrightarrow>
      obj_at ?lv (Suc ?k) ?n ?s a = Some (heap ?b' a)"
  proof (intro allI impI)
    fix a assume a: "?n \<le> a \<and> a < ?n + nodes ?s"
    then have ap: "a \<noteq> ?p" using pn by simp
    have eq: "heap ?b' a = heap b3 a" using end_suite_heap(2) [OF g3(1) pne] ap by simp
    show "obj_at ?lv (Suc ?k) ?n ?s a = Some (heap ?b' a)"
    proof (cases "a = ?n")
      case True
      then show ?thesis using eq h3n by simp
    next
      case False
      then have "Suc ?n \<le> a" "a < Suc ?n + ?M" using a by simp_all
      then show ?thesis using h3x [of a] eq False by simp
    qed
  qed
  have "visited b ?b' (nodes ?s) (all_tests ?s)
       (if shown ?lv ?k then [?n] else []) (obj_at ?lv (Suc ?k) ?n ?s)"
    unfolding visited_def using k1 hp hf hx by blast
  then show ?case using res by blast
qed

lemma create_combined_loop_config:
  "normalize (create_combined_loop self combs) = normalize self
   \<and> ts_combine (create_combined_loop self combs) = ts_combine self
   \<and> ts_include (create_combined_loop self combs) = ts_include self
   \<and> ts_exclude (create_combined_loop self combs) = ts_exclude self
   \<and> ts_info (create_combined_loop self combs) = ts_info self"
  by (induction combs arbitrary: self) simp_all

lemma create_combined_loop_contains:
  "stats_contains (create_combined_loop self combs) k =
     (stats_contains self k \<or> list_ex (\<lambda>c. normalize self k = normalize self (comb_name c)) combs)"
  by (induction combs arbitrary: self) (auto simp: stats_contains_setitem)

lemma stats_contains_combine_update [simp]:
  "stats_contains (self\<lparr>ts_combine := cs\<rparr>) k = stats_contains self k"
  by (simp add: stats_contains_def)

lemma TagStatistics_init_seeded:
  assumes "TagStatistics_init TagPatterns norm incl excl combine docs lnks = Inr ts"
  shows "combined_seeded ts"
proof -
  from assms obtain info where
    ts: "ts = (create_combined_loop
                 \<lparr>normalize = norm, stats = [], ts_include = TagPatterns incl,
                   ts_exclude = TagPatterns excl, ts_info = info, ts_combine = []\<rparr>
                 (map (\<lambda>(pattern, n). CombinedTag_init TagPatterns pattern n) combine))
               \<lparr>ts_combine := map (\<lambda>(pattern, n). CombinedTag_init TagPatterns pattern n) combine\<rparr>"
    by (auto simp: TagStatistics_init_def create_combined_def Let_def split: sum.splits)
  show ?thesis
    unfolding ts combined_seeded_def
    by (simp add: create_combined_loop_contains list_all_iff list_ex_iff) blast
qed

lemma build_spec:
  assumes "combined_seeded ts"
  shows "\<exists>b'. visit_suite tf (StatisticsBuilder_init ts level s) s = Inr b'
     \<and> build tf ts level s = (if shown level 0 then Inr (1, b') else Inl IndexError)
     \<and> visited (StatisticsBuilder_init ts level s) b' (nodes s) (all_tests s)
          (if shown level 0 then [1] else []) (obj_at level 1 1 s)"
proof -
  let ?b0 = "StatisticsBuilder_init ts level s"
  have r: "ready ?b0" using assms by (simp add: ready_def StatisticsBuilder_init_def)
  obtain b' where v: "visit_suite tf ?b0 s = Inr b'"
    and p': "visited ?b0 b' (nodes s) (all_tests s)
       (if shown (suite_stat_level ?b0) (length (parents ?b0)) then [next_addr ?b0] else [])
       (obj_at (suite_stat_level ?b0) (Suc (length (parents ?b0))) (next_addr ?b0) s)"
    using visit_suite_spec [OF r] by blast
  have f: "suite_stat_level ?b0 = level" "parents ?b0 = []" "next_addr ?b0 = 1"
    "current_suite_stat ?b0 = 0"
    by (simp_all add: StatisticsBuilder_init_def)
  have p: "visited ?b0 b' (nodes s) (all_tests s) (if shown level 0 then [1] else []) (obj_at level 1 1 s)"
    using p' unfolding f by simp
  have c: "current_suite_stat b' = 0" using p f by (simp add: visited_def)
  have "ss_suites (heap b' 0) = (if shown level 0 then [1] else [])"
    using p f by (simp add: visited_def StatisticsBuilder_init_def SuiteStatistics_init_def)
  then have "build tf ts level s = (if shown level 0 then Inr (1, b') else Inl IndexError)"
    using v c by (simp add: build_def)
  then show ?thesis using v p by blast
qed

lemma build_objects:
  assumes "combined_seeded ts" and "level = - 1 \<or> 1 \<le> level"
  shows "\<exists>b. build tf ts level s = Inr (1, b)
           \<and> (\<forall>a. 1 \<le> a \<and> a < 1 + nodes s \<longrightarrow> Some (heap b a) = obj_at level 1 1 s a)"
proof -
  have sh: "shown level 0" using assms(2) by (auto simp: shown_def)
  obtain b' where b: "build tf ts level s = (if shown level 0 then Inr (1, b') else Inl IndexError)"
    and p: "visited (StatisticsBuilder_init ts level s) b' (nodes s) (all_tests s)
          (if shown level 0 then [1] else []) (obj_at level 1 1 s)"
    using build_spec [OF assms(1)] by blast
  have "\<forall>a. 1 \<le> a \<and> a < 1 + nodes s \<longrightarrow> Some (heap b' a) = obj_at level 1 1 s a"
    using p by (simp add: visited_def StatisticsBuilder_init_def)
  then show ?thesis using b sh by simp
qed

lemma obj_at_root: "obj_at level depth n s n = Some (finished level depth n s)"
  by (cases s) simp

lemma build_root:
  assumes "combined_seeded ts" and "level = - 1 \<or> 1 \<le> level"
  shows "\<exists>b. build tf ts level s = Inr (1, b) \<and> heap b 1 = finished level 1 1 s"
proof -
  have sh: "shown level 0" using assms(2) by (auto simp: shown_def)
  obtain b' where b: "build tf ts level s = (if shown level 0 then Inr (1, b') else Inl IndexError)"
    and p: "visited (StatisticsBuilder_init ts level s) b' (nodes s) (all_tests s)
          (if shown level 0 then [1] else []) (obj_at level 1 1 s)"
    using build_spec [OF assms(1)] by blast
  have "0 < nodes s" by (cases s) simp
  then have "obj_at level 1 1 s 1 = Some (heap b' 1)"
    using p by (simp add: visited_def StatisticsBuilder_init_def)
  then have "heap b' 1 = finished level 1 1 s" by (simp add: obj_at_root)
  then show ?thesis using b sh by simp
qed

lemma build_IndexError:
  assumes "combined_seeded ts" and "level = 0 \<or> level < - 1"
  shows "build tf ts level s = Inl IndexError"
proof -
  have "\<not> shown level 0" using assms(2) by (auto simp: shown_def)
  then show ?thesis using build_spec [OF assms(1), of tf level s] by auto
qed

lemma SuiteStat_init_total [simp]: "Stat_total (SuiteStat_init s) = 0"
  by (simp add: Stat_total_def SuiteStat_init_def)

text \<open>
  C1, as amended. For every suite tree, for both traversal orders and for every depth
  limit that is \<open>-1\<close> or at least 1, \<^verbatim>\<open>build\<close> returns the root object, and the
  total of its \<^verbatim>\<open>all\<close> stat is the number of tests anywhere in the tree. (With the
  limit 0, or one below \<open>-1\<close>, the root is never appended to the wrapper and the
  subscript \<^verbatim>\<open>suites[0]\<close> raises: see the counterexample.)
\<close>

theorem root_all_total:
  assumes "TagStatistics_init TagPatterns norm incl excl combine docs lnks = Inr ts"
    and "level = - 1 \<or> 1 \<le> level"
  shows "\<exists>root b. build tests_first ts level s = Inr (root, b)
           \<and> Stat_total (ss_all (heap b root)) = int (length (all_tests s))"
proof -
  obtain b where "build tests_first ts level s = Inr (1, b)" and "heap b 1 = finished level 1 1 s"
    using build_root [OF TagStatistics_init_seeded [OF assms(1)] assms(2)] by blast
  then show ?thesis
    by (auto simp: finished_def Stat_total_counted)
qed

text \<open>
  C3. For every suite tree, the total of the root's \<^verbatim>\<open>critical\<close> stat is the number
  of tests in the whole tree whose \<^verbatim>\<open>critical\<close> attribute is \<^verbatim>\<open>'yes'\<close>, and it is
  at most the total of the root's \<^verbatim>\<open>all\<close> stat. This holds for the default limit
  \<open>-1\<close> and for every limit from 1 on, that is, whenever a root is returned.
\<close>

theorem root_critical_total:
  assumes "TagStatistics_init TagPatterns norm incl excl combine docs lnks = Inr ts"
    and "level = - 1 \<or> 1 \<le> level"
  shows "\<exists>root b. build tests_first ts level s = Inr (root, b)
           \<and> Stat_total (ss_critical (heap b root)) = int (length (critical_tests (all_tests s)))
           \<and> Stat_total (ss_critical (heap b root)) \<le> Stat_total (ss_all (heap b root))"
proof -
  obtain b where "build tests_first ts level s = Inr (1, b)" and "heap b 1 = finished level 1 1 s"
    using build_root [OF TagStatistics_init_seeded [OF assms(1)] assms(2)] by blast
  moreover have "length (critical_tests (all_tests s)) \<le> length (all_tests s)"
    by (simp add: critical_tests_def)
  ultimately show ?thesis
    by (auto simp: finished_def Stat_total_counted)
qed

lemma finished_same_counts:
  "same_counts (finished d depth n s) (finished (- 1) depth n s)"
  by (simp add: same_counts_def finished_def shown_def)

lemma obj_at_same_counts:
  "obj_at d depth n s a = Some x \<Longrightarrow>
     \<exists>y. obj_at (- 1) depth n s a = Some y \<and> same_counts x y"
  "objs_at d depth n ss a = Some x \<Longrightarrow>
     \<exists>y. objs_at (- 1) depth n ss a = Some y \<and> same_counts x y"
proof (induction d depth n s a and d depth n ss a arbitrary: x and x rule: obj_at_objs_at.induct)
  case (1 level depth n ln nm i c ts ss a)
  show ?case
  proof (cases "a = n")
    case True
    then show ?thesis using "1.prems" finished_same_counts by auto
  next
    case False
    then show ?thesis using "1.prems" "1.IH" by simp
  qed
next
  case (2 level depth n a)
  then show ?case by simp
next
  case (3 level depth n s ss a)
  show ?case
  proof (cases "a < n + nodes s")
    case True
    then show ?thesis using "3.prems" "3.IH"(1) by simp
  next
    case False
    then show ?thesis using "3.prems" "3.IH"(2) by simp
  qed
qed

lemma build_same_counts:
  assumes seeded: "combined_seeded ts" and d: "d = - 1 \<or> 1 \<le> d"
  shows "\<exists>b b'. build tf ts d s = Inr (1, b) \<and> build tf ts (- 1) s = Inr (1, b')
           \<and> (\<forall>a. same_counts (heap b a) (heap b' a))"
proof -
  let ?b0 = "\<lambda>l. StatisticsBuilder_init ts l s"
  have sh: "shown d 0" "shown (- 1) 0" using d by (auto simp: shown_def)
  obtain b where b: "build tf ts d s = Inr (1, b)"
    and p: "visited (?b0 d) b (nodes s) (all_tests s) [1] (obj_at d 1 1 s)"
    using build_spec [OF seeded, of tf d s] sh by auto
  obtain b' where b': "build tf ts (- 1) s = Inr (1, b')"
    and p': "visited (?b0 (- 1)) b' (nodes s) (all_tests s) [1] (obj_at (- 1) 1 1 s)"
    using build_spec [OF seeded, of tf "- 1" s] sh by auto
  have f: "\<And>l. next_addr (?b0 l) = 1" "\<And>l. current_suite_stat (?b0 l) = 0"
    "\<And>l a. heap (?b0 l) a = SuiteStatistics_init s"
    by (simp_all add: StatisticsBuilder_init_def)
  have "same_counts (heap b a) (heap b' a)" for a
  proof -
    consider "a = 0" | "1 \<le> a \<and> a < 1 + nodes s" | "1 + nodes s \<le> a" by linarith
    then show ?thesis
    proof cases
      case 1
      have "heap b 0 = heap b' 0"
        using p p' by (simp add: visited_def f)
      then show ?thesis using 1 by (simp add: same_counts_def)
    next
      case 2
      have x: "obj_at d 1 1 s a = Some (heap b a)" using p 2 by (simp add: visited_def f)
      have y: "obj_at (- 1) 1 1 s a = Some (heap b' a)" using p' 2 by (simp add: visited_def f)
      show ?thesis using obj_at_same_counts(1) [OF x] y by simp
    next
      case 3
      have "heap b a = SuiteStatistics_init s" using p 3 by (simp add: visited_def f)
      moreover have "heap b' a = SuiteStatistics_init s" using p' 3 by (simp add: visited_def f)
      ultimately show ?thesis by (simp add: same_counts_def)
    qed
  qed
  then show ?thesis using b b' by blast
qed

lemma retained_unlimited:
  assumes "\<forall>a. same_counts (h a) (h' a)" and "retained h root a"
  shows "retained h' root a"
  using assms(2)
proof (induction rule: retained.induct)
  case retained_root
  show ?case by (rule retained.retained_root)
next
  case (retained_child a c)
  have "ss_suites (h a) = ss_suites (h' a) \<or> ss_suites (h a) = []"
    using assms(1) by (simp add: same_counts_def)
  then have "c \<in> set (ss_suites (h' a))" using retained_child.hyps(2) by auto
  with retained_child.IH show ?case by (rule retained.retained_child)
qed

lemma visit_test_tags:
  assumes "visit_test b1 t = Inr b1'" and "visit_test b2 t = Inr b2'"
    and "tag_stats b1 = tag_stats b2" and "current_suite b1 = current_suite b2"
  shows "tag_stats b1' = tag_stats b2' \<and> current_suite b1' = current_suite b2'"
  using assms by (auto simp: visit_test_def Let_def split: option.splits sum.splits)

lemma visit_tests_tags:
  assumes "visit_tests b1 ts = Inr b1'" and "visit_tests b2 ts = Inr b2'"
    and "tag_stats b1 = tag_stats b2" and "current_suite b1 = current_suite b2"
  shows "tag_stats b1' = tag_stats b2' \<and> current_suite b1' = current_suite b2'"
  using assms
proof (induction ts arbitrary: b1 b2)
  case Nil
  then show ?case by simp
next
  case (Cons t ts)
  obtain c1 where c1: "visit_test b1 t = Inr c1" and r1: "visit_tests c1 ts = Inr b1'"
    using Cons.prems(1) by (cases "visit_test b1 t") simp_all
  obtain c2 where c2: "visit_test b2 t = Inr c2" and r2: "visit_tests c2 ts = Inr b2'"
    using Cons.prems(2) by (cases "visit_test b2 t") simp_all
  have "tag_stats c1 = tag_stats c2 \<and> current_suite c1 = current_suite c2"
    using visit_test_tags [OF c1 c2] Cons.prems(3,4) by blast
  then show ?case using Cons.IH [OF r1 r2] by blast
qed

lemma visit_suites_tags:
  assumes "\<forall>s\<in>set ss. \<forall>b1 b2 b1' b2'.
      visit_suite tf b1 s = Inr b1' \<longrightarrow> visit_suite tf b2 s = Inr b2' \<longrightarrow>
      tag_stats b1 = tag_stats b2 \<longrightarrow>
      tag_stats b1' = tag_stats b2' \<and> current_suite b1' = current_suite b2'"
    and "visit_suites tf b1 ss = Inr b1'" and "visit_suites tf b2 ss = Inr b2'"
    and "tag_stats b1 = tag_stats b2" and "current_suite b1 = current_suite b2"
  shows "tag_stats b1' = tag_stats b2' \<and> current_suite b1' = current_suite b2'"
  using assms
proof (induction ss arbitrary: b1 b2)
  case Nil
  then show ?case by simp
next
  case (Cons s ss)
  obtain c1 where c1: "visit_suite tf b1 s = Inr c1" and r1: "visit_suites tf c1 ss = Inr b1'"
    using Cons.prems(2) by (cases "visit_suite tf b1 s") simp_all
  obtain c2 where c2: "visit_suite tf b2 s = Inr c2" and r2: "visit_suites tf c2 ss = Inr b2'"
    using Cons.prems(3) by (cases "visit_suite tf b2 s") simp_all
  have "s \<in> set (s # ss)" by simp
  from Cons.prems(1) [rule_format, OF this c1 c2 Cons.prems(4)]
  have e: "tag_stats c1 = tag_stats c2 \<and> current_suite c1 = current_suite c2" .
  have rest: "\<forall>s\<in>set ss. \<forall>b1 b2 b1' b2'.
      visit_suite tf b1 s = Inr b1' \<longrightarrow> visit_suite tf b2 s = Inr b2' \<longrightarrow>
      tag_stats b1 = tag_stats b2 \<longrightarrow>
      tag_stats b1' = tag_stats b2' \<and> current_suite b1' = current_suite b2'"
  proof (intro ballI allI impI)
    fix x d1 d2 d1' d2'
    assume x: "x \<in> set ss" and v: "visit_suite tf d1 x = Inr d1'" "visit_suite tf d2 x = Inr d2'"
      and t: "tag_stats d1 = tag_stats d2"
    from x have "x \<in> set (s # ss)" by simp
    from Cons.prems(1) [rule_format, OF this v t]
    show "tag_stats d1' = tag_stats d2' \<and> current_suite d1' = current_suite d2'" .
  qed
  from e have e1: "tag_stats c1 = tag_stats c2" and e2: "current_suite c1 = current_suite c2"
    by simp_all
  show ?case by (rule Cons.IH [OF rest r1 r2 e1 e2])
qed

lemma end_suite_tags:
  "tag_stats (end_suite b s) = tag_stats b" "current_suite (end_suite b s) = current_suite b"
  by (simp_all add: end_suite_def Let_def)

lemma visit_suite_tags:
  "visit_suite tf b1 s = Inr b1' \<Longrightarrow> visit_suite tf b2 s = Inr b2' \<Longrightarrow>
   tag_stats b1 = tag_stats b2 \<Longrightarrow>
   tag_stats b1' = tag_stats b2' \<and> current_suite b1' = current_suite b2'"
proof (induction s arbitrary: b1 b2 b1' b2')
  case (Suite ln nm i c ts ss)
  let ?s = "Suite ln nm i c ts ss"
  define c1 where "c1 = start_suite b1 ?s"
  define c2 where "c2 = start_suite b2 ?s"
  have f: "tag_stats c1 = tag_stats c2" "current_suite c1 = current_suite c2"
    unfolding c1_def c2_def using Suite.prems(3) by (simp_all add: start_suite_fields)
  have IH: "\<forall>x\<in>set ss. \<forall>d1 d2 d1' d2'.
      visit_suite tf d1 x = Inr d1' \<longrightarrow> visit_suite tf d2 x = Inr d2' \<longrightarrow>
      tag_stats d1 = tag_stats d2 \<longrightarrow>
      tag_stats d1' = tag_stats d2' \<and> current_suite d1' = current_suite d2'"
  proof (intro ballI allI impI)
    fix x d1 d2 d1' d2'
    assume "x \<in> set ss" "visit_suite tf d1 x = Inr d1'" "visit_suite tf d2 x = Inr d2'"
      "tag_stats d1 = tag_stats d2"
    then show "tag_stats d1' = tag_stats d2' \<and> current_suite d1' = current_suite d2'"
      by (rule Suite.IH)
  qed
  define m1 where "m1 = (if tf
               then (case visit_tests c1 ts of
                       Inl e \<Rightarrow> Inl e
                     | Inr self2 \<Rightarrow> visit_suites tf self2 ss)
               else (case visit_suites tf c1 ss of
                       Inl e \<Rightarrow> Inl e
                     | Inr self2 \<Rightarrow> visit_tests self2 ts))"
  define m2 where "m2 = (if tf
               then (case visit_tests c2 ts of
                       Inl e \<Rightarrow> Inl e
                     | Inr self2 \<Rightarrow> visit_suites tf self2 ss)
               else (case visit_suites tf c2 ss of
                       Inl e \<Rightarrow> Inl e
                     | Inr self2 \<Rightarrow> visit_tests self2 ts))"
  have u1: "visit_suite tf b1 ?s = (case m1 of Inl e \<Rightarrow> Inl e | Inr self3 \<Rightarrow> Inr (end_suite self3 ?s))"
    by (simp only: visit_suite.simps Let_def m1_def c1_def)
  have u2: "visit_suite tf b2 ?s = (case m2 of Inl e \<Rightarrow> Inl e | Inr self3 \<Rightarrow> Inr (end_suite self3 ?s))"
    by (simp only: visit_suite.simps Let_def m2_def c2_def)
  obtain e1 where e1: "m1 = Inr e1" and r1: "b1' = end_suite e1 ?s"
    using Suite.prems(1) unfolding u1 by (cases m1) simp_all
  obtain e2 where e2: "m2 = Inr e2" and r2: "b2' = end_suite e2 ?s"
    using Suite.prems(2) unfolding u2 by (cases m2) simp_all
  have "tag_stats e1 = tag_stats e2 \<and> current_suite e1 = current_suite e2"
  proof (cases tf)
    case True
    obtain d1 where t1: "visit_tests c1 ts = Inr d1" and s1: "visit_suites tf d1 ss = Inr e1"
      using e1 True unfolding m1_def by (cases "visit_tests c1 ts") simp_all
    obtain d2 where t2: "visit_tests c2 ts = Inr d2" and s2: "visit_suites tf d2 ss = Inr e2"
      using e2 True unfolding m2_def by (cases "visit_tests c2 ts") simp_all
    have d: "tag_stats d1 = tag_stats d2 \<and> current_suite d1 = current_suite d2"
      using visit_tests_tags [OF t1 t2 f] .
    show ?thesis
      using visit_suites_tags [OF IH s1 s2] d by simp
  next
    case False
    obtain d1 where s1: "visit_suites tf c1 ss = Inr d1" and t1: "visit_tests d1 ts = Inr e1"
      using e1 False unfolding m1_def by (cases "visit_suites tf c1 ss") simp_all
    obtain d2 where s2: "visit_suites tf c2 ss = Inr d2" and t2: "visit_tests d2 ts = Inr e2"
      using e2 False unfolding m2_def by (cases "visit_suites tf c2 ss") simp_all
    have d: "tag_stats d1 = tag_stats d2 \<and> current_suite d1 = current_suite d2"
      using visit_suites_tags [OF IH s1 s2 f] .
    show ?thesis
      using visit_tests_tags [OF t1 t2] d by simp
  qed
  then show ?case unfolding r1 r2 by (simp add: end_suite_tags)
qed

lemma build_visit:
  assumes "build tf ts d s = Inr (root, b)"
  shows "visit_suite tf (StatisticsBuilder_init ts d s) s = Inr b"
proof (cases "visit_suite tf (StatisticsBuilder_init ts d s) s")
  case (Inl e)
  then show ?thesis using assms by (simp add: build_def)
next
  case (Inr c)
  then show ?thesis using assms by (simp add: build_def split: list.splits)
qed

lemma build_tags:
  assumes "build tf ts d s = Inr (root, b)" and "build tf ts d' s = Inr (root', b')"
  shows "tag_stats b = tag_stats b' \<and> current_suite b = current_suite b'"
  using visit_suite_tags [OF build_visit [OF assms(1)] build_visit [OF assms(2)]]
  by (simp add: StatisticsBuilder_init_def)

lemma build_fields:
  assumes "combined_seeded ts" and "build tf ts d s = Inr (root, b)"
  shows "parents b = [] \<and> current_suite_stat b = 0 \<and> next_addr b = 1 + nodes s
           \<and> suite_stat_level b = d"
proof -
  obtain b' where v: "visit_suite tf (StatisticsBuilder_init ts d s) s = Inr b'"
    and p: "visited (StatisticsBuilder_init ts d s) b' (nodes s) (all_tests s)
          (if shown d 0 then [1] else []) (obj_at d 1 1 s)"
    using build_spec [OF assms(1), of tf d s] by blast
  have "b' = b" using v build_visit [OF assms(2)] by simp
  then show ?thesis using p by (simp add: visited_def StatisticsBuilder_init_def)
qed

text \<open>
  C2, as amended. Take any suite tree and any depth limit \<open>d\<close> of at least 1. The run
  with the limit \<open>d\<close> and the run with the limit \<open>-1\<close> both return a root, the same
  one. Every node retained in the depth-limited tree is a node of the unlimited tree
  and has the same \<^verbatim>\<open>all\<close> and \<^verbatim>\<open>critical\<close> stats there. Over the whole store the
  two runs differ only in the \<^verbatim>\<open>suites\<close> lists: a list of the limited run is that of
  the unlimited run or is empty. The tag statistics that the two runs leave are the
  same, and so is the rest of the builder: its final states differ in nothing but the
  store and the limit. So the limit decides only which children are appended; the
  totals of a finished suite are merged into its parent whatever the limit is. The last
  two parts say what the stores hold: the object of every suite is the \<open>finished\<close>
  one, which counts the tests of the whole subtree; in the limited run it lists its
  children exactly when the stack, while they started, was shorter than the limit, and
  in the unlimited run always.
\<close>

theorem depth_limit_keeps_counts:
  assumes "TagStatistics_init TagPatterns norm incl excl combine docs lnks = Inr ts"
    and "1 \<le> d"
  shows "\<exists>root b b'.
           build tests_first ts d s = Inr (root, b)
           \<and> build tests_first ts (- 1) s = Inr (root, b')
           \<and> (\<forall>a. retained (heap b) root a \<longrightarrow>
                 retained (heap b') root a
                 \<and> ss_all (heap b a) = ss_all (heap b' a)
                 \<and> ss_critical (heap b a) = ss_critical (heap b' a))
           \<and> (\<forall>a. ss_all (heap b a) = ss_all (heap b' a)
                 \<and> ss_critical (heap b a) = ss_critical (heap b' a)
                 \<and> (ss_suites (heap b a) = ss_suites (heap b' a) \<or> ss_suites (heap b a) = []))
           \<and> tag_stats b = tag_stats b'
           \<and> b = b'\<lparr>heap := heap b, suite_stat_level := d\<rparr>
           \<and> (\<forall>a. root \<le> a \<and> a < root + nodes s \<longrightarrow>
                 Some (heap b a) = obj_at d 1 root s a)
           \<and> (\<forall>a. root \<le> a \<and> a < root + nodes s \<longrightarrow>
                 Some (heap b' a) = obj_at (- 1) 1 root s a)"
proof -
  have dd: "d = - 1 \<or> 1 \<le> d" using assms(2) by simp
  obtain b b' where b: "build tests_first ts d s = Inr (1, b)"
    and b': "build tests_first ts (- 1) s = Inr (1, b')"
    and sc: "\<forall>a. same_counts (heap b a) (heap b' a)"
    using build_same_counts [OF TagStatistics_init_seeded [OF assms(1)] dd] by blast
  have o: "\<forall>a. 1 \<le> a \<and> a < 1 + nodes s \<longrightarrow> Some (heap b a) = obj_at d 1 1 s a"
    using build_objects [OF TagStatistics_init_seeded [OF assms(1)] dd, of tests_first s] b
    by auto
  have o': "\<forall>a. 1 \<le> a \<and> a < 1 + nodes s \<longrightarrow> Some (heap b' a) = obj_at (- 1) 1 1 s a"
    using build_objects [OF TagStatistics_init_seeded [OF assms(1)], of "- 1" tests_first s] b'
    by auto
  have r: "\<forall>a. retained (heap b) 1 a \<longrightarrow>
                 retained (heap b') 1 a
                 \<and> ss_all (heap b a) = ss_all (heap b' a)
                 \<and> ss_critical (heap b a) = ss_critical (heap b' a)"
    using retained_unlimited [OF sc] sc by (simp add: same_counts_def)
  have q: "\<forall>a. ss_all (heap b a) = ss_all (heap b' a)
             \<and> ss_critical (heap b a) = ss_critical (heap b' a)
             \<and> (ss_suites (heap b a) = ss_suites (heap b' a) \<or> ss_suites (heap b a) = [])"
    using sc by (simp add: same_counts_def)
  have t: "tag_stats b = tag_stats b'" and c: "current_suite b = current_suite b'"
    using build_tags [OF b b'] by simp_all
  have "parents b = [] \<and> current_suite_stat b = 0 \<and> next_addr b = 1 + nodes s
           \<and> suite_stat_level b = d"
    using TagStatistics_init_seeded [OF assms(1)] b by (rule build_fields)
  moreover have "parents b' = [] \<and> current_suite_stat b' = 0 \<and> next_addr b' = 1 + nodes s
           \<and> suite_stat_level b' = - 1"
    using TagStatistics_init_seeded [OF assms(1)] b' by (rule build_fields)
  ultimately have e: "b = b'\<lparr>heap := heap b, suite_stat_level := d\<rparr>"
    using t c by (intro builder.equality) simp_all
  show ?thesis
    using b b' r q t e o o' by blast
qed

lemma example_tag_stats_init:
  "TagStatistics_init simple_patterns (\<lambda>s. s) [] [] [] [] [] = Inr example_tag_stats"
  by (simp add: TagStatistics_init_def TagStatInfo_init_def create_combined_def example_tag_stats_def)

lemmas builder_eval =
  build_def StatisticsBuilder_init_def example_suite_def example_tag_stats_def
  start_suite_def end_suite_def visit_test_def Let_def example_test_def example_criticality_def
  TagStatistics_add_test_def add_tags_statistics_def add_combined_statistics_def
  SuiteStatistics_add_test_def SuiteStatistics_init_def SuiteStat_init_def Stat_add_test_def
  add_stat_def

text \<open>
  The claim C1 as stated, for every depth limit, fails at the limit 0: the root is not
  appended to the wrapper, and \<^verbatim>\<open>build\<close> raises \<^verbatim>\<open>IndexError\<close> at
  \<^verbatim>\<open>suites[0]\<close> instead of returning a root.
\<close>

theorem root_all_total_counterexample:
  "build True example_tag_stats 0 example_suite = Inl IndexError"
  by (simp add: builder_eval)

theorem root_all_total_witness:
  "\<exists>root b. build True example_tag_stats 1 example_suite = Inr (root, b)
     \<and> Stat_total (ss_all (heap b root)) = 4"
  using root_all_total [OF example_tag_stats_init, of 1 True example_suite]
  by (simp add: example_suite_def)

theorem root_critical_total_witness:
  "\<exists>root b. build False example_tag_stats (- 1) example_suite = Inr (root, b)
     \<and> Stat_total (ss_critical (heap b root)) = 2
     \<and> Stat_total (ss_critical (heap b root)) \<le> Stat_total (ss_all (heap b root))"
  using root_critical_total [OF example_tag_stats_init, of "- 1" False example_suite]
  by (simp add: example_suite_def critical_tests_def example_test_def)

lemma example_limited:
  "\<exists>b. build False example_tag_stats 2 example_suite = Inr (1, b)
     \<and> ss_suites (heap b 1) = [2] \<and> ss_suites (heap b 2) = []"
proof -
  obtain b where b: "build False example_tag_stats 2 example_suite = Inr (1, b)"
    and o: "\<forall>a. 1 \<le> a \<and> a < 1 + nodes example_suite \<longrightarrow>
              Some (heap b a) = obj_at 2 1 1 example_suite a"
    using build_objects [OF TagStatistics_init_seeded [OF example_tag_stats_init], of 2 False example_suite]
    by auto
  have "Some (heap b 1) = obj_at 2 1 1 example_suite 1" "Some (heap b 2) = obj_at 2 1 1 example_suite 2"
    using o [THEN spec, of 1] o [THEN spec, of 2] by (simp_all add: example_suite_def)
  then have "ss_suites (heap b 1) = [2]" "ss_suites (heap b 2) = []"
    by (simp_all add: example_suite_def finished_def shown_def)
  then show ?thesis using b by blast
qed

lemma example_unlimited:
  "\<exists>b. build False example_tag_stats (- 1) example_suite = Inr (1, b)
     \<and> ss_suites (heap b 2) = [3]"
proof -
  obtain b where b: "build False example_tag_stats (- 1) example_suite = Inr (1, b)"
    and o: "\<forall>a. 1 \<le> a \<and> a < 1 + nodes example_suite \<longrightarrow>
              Some (heap b a) = obj_at (- 1) 1 1 example_suite a"
    using build_objects [OF TagStatistics_init_seeded [OF example_tag_stats_init], of "- 1" False example_suite]
    by auto
  have "Some (heap b 2) = obj_at (- 1) 1 1 example_suite 2"
    using o [THEN spec, of 2] by (simp add: example_suite_def)
  then have "ss_suites (heap b 2) = [3]"
    by (simp add: example_suite_def finished_def shown_def)
  then show ?thesis using b by blast
qed

theorem depth_limit_keeps_counts_witness:
  "(1::int) \<le> 2
   \<and> (\<exists>root b b'.
         build False example_tag_stats 2 example_suite = Inr (root, b)
         \<and> build False example_tag_stats (- 1) example_suite = Inr (root, b')
         \<and> retained (heap b) root 2 \<and> retained (heap b') root 2
         \<and> ss_all (heap b 2) = ss_all (heap b' 2)
         \<and> ss_critical (heap b 2) = ss_critical (heap b' 2)
         \<and> ss_suites (heap b 2) = [] \<and> ss_suites (heap b' 2) = [3]
         \<and> tag_stats b = tag_stats b')"
proof -
  obtain root b b' where b: "build False example_tag_stats 2 example_suite = Inr (root, b)"
    and b': "build False example_tag_stats (- 1) example_suite = Inr (root, b')"
    and r: "\<forall>a. retained (heap b) root a \<longrightarrow>
                 retained (heap b') root a
                 \<and> ss_all (heap b a) = ss_all (heap b' a)
                 \<and> ss_critical (heap b a) = ss_critical (heap b' a)"
    and t: "tag_stats b = tag_stats b'"
    using depth_limit_keeps_counts [OF example_tag_stats_init, of 2 False example_suite] by auto
  from example_limited b have root: "root = 1" and s1: "ss_suites (heap b 1) = [2]"
    and s2: "ss_suites (heap b 2) = []"
    by auto
  from example_unlimited b' have s2': "ss_suites (heap b' 2) = [3]" by auto
  have "retained (heap b) root root" by (rule retained_root)
  then have "retained (heap b) root 2"
    using s1 root retained_child [of "heap b" root root 2] by simp
  then show ?thesis using b b' r t s2 s2' by auto
qed

text \<open>
  The claim C2 as stated, for any finite depth limit, fails at the limit 0: the run
  with the limit \<open>-1\<close> returns a root, and the run with the limit 0 raises
  \<^verbatim>\<open>IndexError\<close>, so there is no depth-limited tree whose nodes could be compared.
\<close>

theorem depth_limit_keeps_counts_counterexample:
  "build False example_tag_stats 0 example_suite = Inl IndexError
   \<and> \<not> isl (build False example_tag_stats (- 1) example_suite)"
proof -
  have "build False example_tag_stats 0 example_suite = Inl IndexError"
    by (rule build_IndexError [OF TagStatistics_init_seeded [OF example_tag_stats_init]]) simp
  moreover have "\<not> isl (build False example_tag_stats (- 1) example_suite)"
    using example_unlimited by auto
  ultimately show ?thesis by simp
qed

section \<open>The pattern compiler\<close>

lemma re_escape_append [simp]: "re_escape (xs @ ys) = re_escape xs @ re_escape ys"
  by (simp add: re_escape_def)

lemma re_escape_Nil [simp]: "re_escape [] = []"
  by (simp add: re_escape_def)

lemma re_escape_single [simp]: "re_escape [c] = escape_char c"
  by (simp add: re_escape_def)

lemma regexp_loop_literal:
  assumes "acc \<noteq> []" and "no_wildcard acc"
  shows "regexp_loop regexp opn (acc # rest) =
           regexp_loop ((if opn then regexp @ ['')''] else regexp) @ [re_escape acc]) False rest"
proof -
  have "acc \<noteq> ''?''" "acc \<noteq> ''*''" using assms(2) by (auto simp: no_wildcard_def)
  then show ?thesis using assms(1) by simp
qed

lemma regexp_loop_split:
  assumes "no_wildcard acc"
  shows "finish_regexp (regexp_loop regexp opn (tokenizer_split_from acc cs)) =
           concat regexp @
             (if acc = [] then glob_body opn cs
              else (if opn then '')'' else []) @ re_escape acc @ glob_body False cs)"
  using assms
proof (induction cs arbitrary: acc regexp opn)
  case Nil
  show ?case
  proof (cases "acc = []")
    case True
    then show ?thesis by (simp add: finish_regexp_def)
  next
    case False
    then show ?thesis
      using regexp_loop_literal [OF False Nil.prems, of regexp opn "[]"]
      by (simp add: finish_regexp_def)
  qed
next
  case (Cons c cs)
  show ?case
  proof (cases "c = CHR ''*'' \<or> c = CHR ''?''")
    case False
    have nw: "no_wildcard (acc @ [c])" using Cons.prems False by (simp add: no_wildcard_def)
    have "finish_regexp (regexp_loop regexp opn (tokenizer_split_from (acc @ [c]) cs)) =
            concat regexp @ (if opn then '')'' else []) @ re_escape (acc @ [c]) @ glob_body False cs"
      using Cons.IH [OF nw, of regexp opn] by simp
    then show ?thesis using False by simp
  next
    case True
    define regexp1 where "regexp1 = (if acc = [] then regexp
                                    else (if opn then regexp @ ['')''] else regexp) @ [re_escape acc])"
    define opn1 where "opn1 = (if acc = [] then opn else False)"
    have step1: "regexp_loop regexp opn (tokenizer_split_from acc (c # cs)) =
                 regexp_loop regexp1 opn1 ([c] # tokenizer_split_from [] cs)"
    proof (cases "acc = []")
      case True
      then show ?thesis using \<open>c = CHR ''*'' \<or> c = CHR ''?''\<close> by (simp add: regexp1_def opn1_def)
    next
      case False
      then show ?thesis
        using \<open>c = CHR ''*'' \<or> c = CHR ''?''\<close> regexp_loop_literal [OF False Cons.prems]
        by (simp add: regexp1_def opn1_def)
    qed
    have c1: "concat regexp1 @ glob_body opn1 (c # cs) =
              concat regexp @ (if acc = [] then glob_body opn (c # cs)
                else (if opn then '')'' else []) @ re_escape acc @ glob_body False (c # cs))"
      by (simp add: regexp1_def opn1_def)
    have nw: "no_wildcard []" by (simp add: no_wildcard_def)
    have step2: "finish_regexp (regexp_loop regexp1 opn1 ([c] # tokenizer_split_from [] cs)) =
                 concat regexp1 @ glob_body opn1 (c # cs)"
    proof (cases "c = CHR ''?''")
      case True
      then show ?thesis using Cons.IH [OF nw] by simp
    next
      case False
      then have "c = CHR ''*''" using \<open>c = CHR ''*'' \<or> c = CHR ''?''\<close> by simp
      then show ?thesis using Cons.IH [OF nw] by simp
    qed
    show ?thesis using step1 step2 c1 by simp
  qed
qed

lemma get_match_regexp_source_body:
  "get_match_regexp_source pattern = ''^'' @ glob_body False pattern @ ''$''"
proof -
  have "finish_regexp (regexp_loop [] False (match_pattern_tokenizer_split pattern)) =
          glob_body False pattern"
    using regexp_loop_split [of "[]" "[]" False pattern]
    by (simp add: match_pattern_tokenizer_split_def no_wildcard_def)
  moreover have "get_match_regexp_source pattern =
      ''^'' @ finish_regexp (regexp_loop [] False (match_pattern_tokenizer_split pattern)) @ ''$''"
    by (simp add: get_match_regexp_source_def finish_regexp_def Let_def split: prod.splits)
  ultimately show ?thesis by simp
qed

lemma is_alnum_plain:
  assumes "is_alnum c"
  shows "c \<noteq> CHR ''^''" "c \<noteq> CHR ''$''" "c \<noteq> CHR ''(''" "c \<noteq> CHR '')''" "c \<noteq> CHR ''.''"
    "c \<noteq> CHR 0x5C" "\<not> re_special c" "c \<noteq> CHR 0x00"
  using assms by (auto simp: is_alnum_def re_special_def)

lemma re_lex_escape_char:
  "re_lex (escape_char c @ rest) = map_option (Cons (RLit c)) (re_lex rest)"
proof (cases "is_alnum c")
  case True
  then show ?thesis using is_alnum_plain [OF True] by (simp add: escape_char_def)
next
  case False
  show ?thesis
  proof (cases "c = CHR 0x00")
    case True
    have "is_alnum (CHR ''0'')" by (simp add: is_alnum_def)
    then show ?thesis using True False by (simp add: escape_char_def)
  next
    case nz: False
    then show ?thesis using False by (simp add: escape_char_def)
  qed
qed

lemma glob_body_open_hd:
  "\<exists>d ds. glob_body True cs = d # ds \<and> d \<noteq> CHR ''*''"
  by (cases cs) auto

lemma re_lex_dot:
  assumes "s = d # ds" and "d \<noteq> CHR ''*''"
  shows "re_lex (CHR ''.'' # s) = map_option (Cons RAny) (re_lex s)"
  using assms by simp

lemma re_lex_glob_body:
  "re_lex (glob_body opn p @ rest) = map_option (\<lambda>ts. glob_tokens opn p @ ts) (re_lex rest)"
proof (induction p arbitrary: opn)
  case Nil
  show ?case by (cases "re_lex rest") (simp_all add: option.map_comp comp_def)
next
  case (Cons c cs)
  show ?case
  proof (cases "c = CHR ''?''")
    case True
    obtain d ds where hd: "glob_body True cs @ rest = d # ds" and dn: "d \<noteq> CHR ''*''"
      using glob_body_open_hd [of cs] by auto
    have dot: "re_lex (CHR ''.'' # glob_body True cs @ rest) =
                 map_option (Cons RAny) (re_lex (glob_body True cs @ rest))"
      using re_lex_dot [OF hd dn] hd by simp
    show ?thesis
      using True dot Cons.IH [of True]
      by (cases "re_lex rest") (simp_all add: option.map_comp comp_def)
  next
    case False
    have lit: "re_lex ((if c = CHR ''*'' then ''(.*)'' else escape_char c) @ glob_body False cs @ rest)
          = map_option (\<lambda>ts. (if c = CHR ''*'' then [ROpen, RAnyStar, RClose] else [RLit c]) @ ts)
              (re_lex (glob_body False cs @ rest))"
    proof (cases "c = CHR ''*''")
      case True
      then show ?thesis
        by (cases "re_lex (glob_body False cs @ rest)") (simp_all add: option.map_comp comp_def)
    next
      case False
      then show ?thesis
        using re_lex_escape_char [of c "glob_body False cs @ rest"] by simp
    qed
    show ?thesis
    proof (cases opn)
      case True
      have "re_lex (glob_body opn (c # cs) @ rest) =
            map_option (Cons RClose)
              (re_lex ((if c = CHR ''*'' then ''(.*)'' else escape_char c) @ glob_body False cs @ rest))"
        using True False by simp
      then show ?thesis
        using True False lit Cons.IH [of False]
        by (cases "re_lex rest") (simp_all add: option.map_comp comp_def)
    next
      case nopn: False
      have "re_lex (glob_body opn (c # cs) @ rest) =
              re_lex ((if c = CHR ''*'' then ''(.*)'' else escape_char c) @ glob_body False cs @ rest)"
        using nopn False by simp
      then show ?thesis
        using nopn False lit Cons.IH [of False]
        by (cases "re_lex rest") (simp_all add: option.map_comp comp_def)
    qed
  qed
qed

lemma re_lex_source:
  "re_lex (get_match_regexp_source pattern) = Some (RBegin # glob_tokens False pattern @ [REnd])"
proof -
  have "re_lex (glob_body False pattern @ ''$'') = Some (glob_tokens False pattern @ [REnd])"
    using re_lex_glob_body [of False pattern "''$''"] by simp
  then show ?thesis by (simp add: get_match_regexp_source_body)
qed

lemma re_groups_ok_glob_tokens:
  "re_groups_ok opn (glob_tokens opn p @ ts) = re_groups_ok False ts"
  by (induction p arbitrary: opn) auto

lemma get_match_regexp_tokens:
  "get_match_regexp pattern =
     Inr \<lparr>re_source = get_match_regexp_source pattern, re_ignorecase = True,
          re_tokens = RBegin # glob_tokens False pattern @ [REnd]\<rparr>"
  using re_groups_ok_glob_tokens [of False pattern "[REnd]"]
  by (simp add: get_match_regexp_def re_compile_def re_lex_source)

lemma glob_tokens_open:
  "glob_tokens True p =
     (case wildcards p of
        Questions n # ws \<Rightarrow> replicate n RAny @ [RClose] @ concat (map wildcard_tokens ws)
      | ws \<Rightarrow> RClose # concat (map wildcard_tokens ws))
   \<and> glob_tokens False p = concat (map wildcard_tokens (wildcards p))"
proof (induction p)
  case Nil
  show ?case by simp
next
  case (Cons c cs)
  show ?case
  proof (cases "c = CHR ''?''")
    case True
    then show ?thesis using Cons.IH
      by (auto split: list.splits wildcard.splits simp: replicate_append_same)
  next
    case False
    then show ?thesis using Cons.IH by auto
  qed
qed

lemma glob_tokens_wildcards:
  "glob_tokens False p = concat (map wildcard_tokens (wildcards p))"
  using glob_tokens_open by blast

lemma group_count_append [simp]: "group_count (xs @ ys) = group_count xs + group_count ys"
  by (simp add: group_count_def)

lemma group_count_glob_tokens:
  "group_count (glob_tokens opn p) + (if opn \<and> p \<noteq> [] \<and> hd p = CHR ''?'' then 1 else 0) =
     count_list p (CHR ''*'') + question_runs p"
proof (induction p arbitrary: opn rule: question_runs.induct)
  case 1
  show ?case by (simp add: group_count_def)
next
  case (2 c)
  show ?case by (simp add: group_count_def)
next
  case (3 c d cs)
  show ?case
  proof (cases "c = CHR ''?''")
    case True
    have "group_count (glob_tokens opn (c # d # cs)) + (if opn then 1 else 0) =
          1 + group_count (glob_tokens True (d # cs))"
      using True by (simp add: group_count_def)
    then show ?thesis using "3.IH" [of True] True by (auto split: if_splits)
  next
    case False
    have "group_count (glob_tokens opn (c # d # cs)) =
          (if c = CHR ''*'' then 1 else 0) + group_count (glob_tokens False (d # cs))"
      using False by (simp add: group_count_def)
    then show ?thesis using "3.IH" [of False] False by (auto split: if_splits)
  qed
qed

lemma group_count_pattern:
  "group_count (RBegin # glob_tokens False p @ [REnd]) = count_list p (CHR ''*'') + question_runs p"
  using group_count_glob_tokens [of False p] by (simp add: group_count_def)

lemmas pattern_eval =
  get_match_regexp_def get_match_regexp_source_def match_pattern_tokenizer_split_def
  re_compile_def re_escape_def escape_char_def is_alnum_def re_special_def Let_def

lemmas match_eval = re_match_def chars_equal_def ascii_lower_def grow_def

lemma example_foo_star_bar:
  "get_match_regexp ''foo*bar'' =
     Inr \<lparr>re_source = ''^foo(.*)bar$'', re_ignorecase = True,
          re_tokens = [RBegin, RLit CHR ''f'', RLit CHR ''o'', RLit CHR ''o'', ROpen, RAnyStar, RClose,
                       RLit CHR ''b'', RLit CHR ''a'', RLit CHR ''r'', REnd]\<rparr>"
  by (simp add: pattern_eval)

lemma example_a_q_b:
  "get_match_regexp ''a?b'' =
     Inr \<lparr>re_source = ''^a(.)b$'', re_ignorecase = True,
          re_tokens = [RBegin, RLit CHR ''a'', ROpen, RAny, RClose, RLit CHR ''b'', REnd]\<rparr>"
  by (simp add: pattern_eval)

lemma example_match_1:
  "re_match \<lparr>re_source = ''^foo(.*)bar$'', re_ignorecase = True,
          re_tokens = [RBegin, RLit CHR ''f'', RLit CHR ''o'', RLit CHR ''o'', ROpen, RAnyStar, RClose,
                       RLit CHR ''b'', RLit CHR ''a'', RLit CHR ''r'', REnd]\<rparr> ''fooXYbar'' = Some [''XY'']"
  by (simp add: match_eval)

lemma example_match_2:
  "re_match \<lparr>re_source = ''^a(.)b$'', re_ignorecase = True,
          re_tokens = [RBegin, RLit CHR ''a'', ROpen, RAny, RClose, RLit CHR ''b'', REnd]\<rparr> ''axb'' = Some [''x'']"
  by (simp add: match_eval)

text \<open>
  C5. For every wildcard pattern the pattern compiler returns a compiled expression
  (it never raises). Its source is the body between \<^verbatim>\<open>^\<close> and \<^verbatim>\<open>$\<close>, it is compiled
  with \<^verbatim>\<open>re.IGNORECASE\<close>, and its items are, between the two anchors and in the order of
  the pattern: one group holding a starred dot for every \<^verbatim>\<open>*\<close>, one group holding
  \<open>n\<close> dots for every maximal run of \<open>n\<close> question marks (closed also when the run
  ends the pattern), and the literal characters. So the number of groups is the number
  of stars plus the number of maximal runs of question marks. The pattern
  \<^verbatim>\<open>foo*bar\<close> matches \<^verbatim>\<open>fooXYbar\<close> with the one group \<^verbatim>\<open>XY\<close>, and \<^verbatim>\<open>a?b\<close> matches
  \<^verbatim>\<open>axb\<close> with the one group \<^verbatim>\<open>x\<close>.
\<close>

theorem get_match_regexp_groups:
  "(\<exists>rx body. get_match_regexp pattern = Inr rx
      \<and> re_source rx = ''^'' @ body @ ''$''
      \<and> re_ignorecase rx
      \<and> re_tokens rx = RBegin # concat (map wildcard_tokens (wildcards pattern)) @ [REnd]
      \<and> group_count (re_tokens rx) = count_list pattern (CHR ''*'') + question_runs pattern)
   \<and> (\<exists>rx. get_match_regexp ''foo*bar'' = Inr rx \<and> re_match rx ''fooXYbar'' = Some [''XY''])
   \<and> (\<exists>rx. get_match_regexp ''a?b'' = Inr rx \<and> re_match rx ''axb'' = Some [''x''])"
proof (intro conjI)
  show "\<exists>rx body. get_match_regexp pattern = Inr rx
      \<and> re_source rx = ''^'' @ body @ ''$''
      \<and> re_ignorecase rx
      \<and> re_tokens rx = RBegin # concat (map wildcard_tokens (wildcards pattern)) @ [REnd]
      \<and> group_count (re_tokens rx) = count_list pattern (CHR ''*'') + question_runs pattern"
    using get_match_regexp_tokens [of pattern] group_count_pattern [of pattern]
      get_match_regexp_source_body [of pattern] glob_tokens_wildcards [of pattern]
    by simp
  show "\<exists>rx. get_match_regexp ''foo*bar'' = Inr rx \<and> re_match rx ''fooXYbar'' = Some [''XY'']"
    using example_foo_star_bar example_match_1 by simp
  show "\<exists>rx. get_match_regexp ''a?b'' = Inr rx \<and> re_match rx ''axb'' = Some [''x'']"
    using example_a_q_b example_match_2 by simp
qed

theorem get_match_regexp_groups_witness:
  "\<exists>rx. get_match_regexp ''a??*b?'' = Inr rx
      \<and> re_source rx = ''^a(..)(.*)b(.)$''
      \<and> re_tokens rx = [RBegin, RLit CHR ''a'', ROpen, RAny, RAny, RClose, ROpen, RAnyStar, RClose,
                         RLit CHR ''b'', ROpen, RAny, RClose, REnd]
      \<and> group_count (re_tokens rx) = 3
      \<and> re_match rx ''AxyzzB!'' = Some [''xy'', ''zz'', ''!'']"
proof -
  obtain rx where rx: "get_match_regexp ''a??*b?'' = Inr rx"
    and t: "re_tokens rx = RBegin # concat (map wildcard_tokens (wildcards ''a??*b?'')) @ [REnd]"
    and i: "re_ignorecase rx"
    and g: "group_count (re_tokens rx) = count_list ''a??*b?'' (CHR ''*'') + question_runs ''a??*b?''"
    using get_match_regexp_groups [of "''a??*b?''"] by blast
  have s: "re_source rx = ''^a(..)(.*)b(.)$''"
    using rx by (auto simp: pattern_eval)
  have t': "re_tokens rx = [RBegin, RLit CHR ''a'', ROpen, RAny, RAny, RClose, ROpen, RAnyStar, RClose,
                         RLit CHR ''b'', ROpen, RAny, RClose, REnd]"
    using t by (simp add: numeral_2_eq_2)
  have "re_match rx ''AxyzzB!'' = Some [''xy'', ''zz'', ''!'']"
    using t' i by (simp add: match_eval)
  then show ?thesis using rx s t' g by simp
qed

section \<open>The tag decorator\<close>

lemma TagStatLink_init_compiled:
  "TagStatLink_init pattern link title = Inr (compiled_link (pattern, link, title))"
  by (simp add: TagStatLink_init_def get_match_regexp_tokens compiled_link_def)

lemma TagStatLink_init_all_compiled:
  "TagStatLink_init_all rules = Inr (map compiled_link rules)"
proof (induction rules)
  case Nil
  show ?case by simp
next
  case (Cons rule rules)
  obtain pattern link title where r: "rule = (pattern, link, title)" by (cases rule) auto
  show ?case using Cons.IH by (simp add: r TagStatLink_init_compiled)
qed

lemma TagStatInfo_init_total:
  "TagStatInfo_init TagPatterns docs rules =
     Inr \<lparr>info_docs = map (\<lambda>(pattern, doc). TagStatDoc_init TagPatterns pattern doc) docs,
          info_links = map compiled_link rules\<rparr>"
  by (simp add: TagStatInfo_init_def TagStatLink_init_all_compiled)

lemma compiled_link_match:
  "re_match (link_regexp (compiled_link (pattern, link, title))) tag = pattern_groups pattern tag"
  by (simp add: compiled_link_def pattern_groups_def get_match_regexp_tokens)

lemma placeholder_digit:
  "i < 9 \<Longrightarrow> placeholder i = [CHR ''%'', digit_char (Suc i)]"
  by (simp add: placeholder_def str_nat.simps)

lemma digit_char_Suc: "i < 9 \<Longrightarrow> digit_char (Suc i) = ''123456789'' ! i"
  by (simp add: digit_char_def)

lemma digit_char_inj:
  assumes "i < 9" and "j < 9"
  shows "(digit_char (Suc i) = digit_char (Suc j)) = (i = j)"
proof -
  have "distinct ''123456789''" by simp
  then show ?thesis
    using assms by (simp add: digit_char_Suc nth_eq_iff_index_eq)
qed

lemma digit_char_not_percent:
  assumes "i < 9"
  shows "digit_char (Suc i) \<noteq> CHR ''%''"
proof -
  have "''123456789'' ! i \<in> set ''123456789''" using assms by (intro nth_mem) simp
  then show ?thesis using assms by (auto simp: digit_char_Suc)
qed

lemma placeholder_at_plain:
  "c \<noteq> CHR ''%'' \<Longrightarrow> placeholder_at n (c # cs) = None"
  by (induction n) (auto simp: placeholder_def)

lemma placeholder_at_end:
  "n \<le> 9 \<Longrightarrow> placeholder_at n [c] = None"
  by (induction n) (auto simp: placeholder_digit)

lemma placeholder_at_digit:
  "n \<le> 9 \<Longrightarrow> i < n \<Longrightarrow> placeholder_at n (CHR ''%'' # digit_char (Suc i) # ds) = Some i"
proof (induction n)
  case 0
  then show ?case by simp
next
  case (Suc n)
  show ?case
  proof (cases "i = n")
    case True
    then show ?thesis using Suc.prems by (simp add: placeholder_digit)
  next
    case False
    then have "i < n" using Suc.prems by simp
    then show ?thesis
      using Suc False by (simp add: placeholder_digit digit_char_inj)
  qed
qed

lemma placeholder_at_other:
  "n \<le> 9 \<Longrightarrow> \<forall>i<n. d \<noteq> digit_char (Suc i) \<Longrightarrow> placeholder_at n (CHR ''%'' # d # ds) = None"
  by (induction n) (auto simp: placeholder_digit)

lemma substitute_plain:
  "c \<noteq> CHR ''%'' \<Longrightarrow> substitute_at_once gs (c # cs) = c # substitute_at_once gs cs"
  by (simp add: substitute_at_once.simps(2) placeholder_at_plain)

lemma substitute_end:
  "length gs \<le> 9 \<Longrightarrow> substitute_at_once gs [c] = [c]"
  by (simp add: substitute_at_once.simps(2) placeholder_at_end)

lemma substitute_digit:
  "length gs \<le> 9 \<Longrightarrow> i < length gs \<Longrightarrow>
     substitute_at_once gs (CHR ''%'' # digit_char (Suc i) # ds) = gs ! i @ substitute_at_once gs ds"
  by (simp add: substitute_at_once.simps(2) placeholder_at_digit placeholder_digit)

lemma substitute_other:
  "length gs \<le> 9 \<Longrightarrow> \<forall>i<length gs. d \<noteq> digit_char (Suc i) \<Longrightarrow>
     substitute_at_once gs (CHR ''%'' # d # ds) = CHR ''%'' # substitute_at_once gs (d # ds)"
  by (simp add: substitute_at_once.simps(2) placeholder_at_other)

lemma substitute_no_groups: "substitute_at_once [] s = s"
  by (induction s) (simp_all add: substitute_at_once.simps(2))

lemma replace_from_plain:
  "c \<noteq> CHR ''%'' \<Longrightarrow>
     replace_from (CHR ''%'' # p) new (c # cs) = c # replace_from (CHR ''%'' # p) new cs"
  by simp

lemma replace_from_end:
  "replace_from [CHR ''%'', x] new [c] = [c]"
  by simp

lemma replace_from_hit:
  "replace_from [CHR ''%'', x] new (CHR ''%'' # x # cs) = new @ replace_from [CHR ''%'', x] new cs"
  by simp

lemma replace_from_miss:
  "d \<noteq> x \<Longrightarrow>
     replace_from [CHR ''%'', x] new (CHR ''%'' # d # cs) = CHR ''%'' # replace_from [CHR ''%'', x] new (d # cs)"
  by simp

lemma replace_from_append:
  "CHR ''%'' \<notin> set xs \<Longrightarrow>
     replace_from (CHR ''%'' # p) new (xs @ ys) = xs @ replace_from (CHR ''%'' # p) new ys"
  by (induction xs) auto

lemma double_percent_tl: "double_percent cs \<Longrightarrow> double_percent (c # cs)"
  by (cases cs) simp_all

lemma substitute_step:
  assumes k: "length hs < 9" and plain: "\<forall>h\<in>set hs. CHR ''%'' \<notin> set h"
  shows "\<not> double_percent t \<Longrightarrow>
     replace_from (placeholder (length hs)) g (substitute_at_once hs t) = substitute_at_once (hs @ [g]) t"
proof (induction "length t" arbitrary: t rule: less_induct)
  case less
  let ?k = "length hs"
  let ?x = "digit_char (Suc ?k)"
  have p: "placeholder ?k = [CHR ''%'', ?x]" using k by (rule placeholder_digit)
  have l: "length hs \<le> 9" "length (hs @ [g]) \<le> 9" using k by simp_all
  have x: "?x \<noteq> CHR ''%''" using k by (rule digit_char_not_percent)
  show ?case
  proof (cases t)
    case Nil
    then show ?thesis by simp
  next
    case (Cons c cs)
    note t = Cons
    show ?thesis
    proof (cases "c = CHR ''%''")
      case False
      have "\<not> double_percent cs" using less.prems double_percent_tl t by blast
      then have "replace_from (placeholder ?k) g (substitute_at_once hs cs) = substitute_at_once (hs @ [g]) cs"
        using less.hyps [of cs] t by simp
      then show ?thesis using False unfolding t p by (simp add: substitute_plain)
    next
      case True
      note c = True
      show ?thesis
      proof (cases cs)
        case Nil
        then show ?thesis unfolding t p using l by (simp add: substitute_end)
      next
        case (Cons d ds)
        note cs = Cons
        have d: "d \<noteq> CHR ''%''" using less.prems unfolding t cs c by simp
        have "\<not> double_percent ds" using less.prems double_percent_tl unfolding t cs by blast
        then have ih: "replace_from [CHR ''%'', ?x] g (substitute_at_once hs ds) = substitute_at_once (hs @ [g]) ds"
          using less.hyps [of ds] unfolding t cs p by simp
        consider (old) i where "i < ?k" "d = digit_char (Suc i)"
          | (new) "d = ?x"
          | (none) "\<forall>i<Suc ?k. d \<noteq> digit_char (Suc i)"
          using less_Suc_eq by auto
        then show ?thesis
        proof cases
          case old
          have "CHR ''%'' \<notin> set (hs ! i)" using plain old(1) by simp
          then have "replace_from [CHR ''%'', ?x] g (hs ! i @ substitute_at_once hs ds)
              = hs ! i @ substitute_at_once (hs @ [g]) ds"
            using ih by (simp add: replace_from_append)
          moreover have "substitute_at_once hs (CHR ''%'' # digit_char (Suc i) # ds) = hs ! i @ substitute_at_once hs ds"
            using l(1) old(1) by (rule substitute_digit)
          moreover have "substitute_at_once (hs @ [g]) (CHR ''%'' # digit_char (Suc i) # ds)
              = (hs @ [g]) ! i @ substitute_at_once (hs @ [g]) ds"
            using l(2) old(1) by (intro substitute_digit) simp_all
          ultimately show ?thesis unfolding t cs c p old(2) using old(1) by (simp add: nth_append)
        next
          case new
          have n: "\<forall>i<?k. ?x \<noteq> digit_char (Suc i)"
            using k by (simp add: digit_char_inj)
          have "substitute_at_once hs (CHR ''%'' # ?x # ds) = CHR ''%'' # ?x # substitute_at_once hs ds"
            using substitute_other [OF l(1) n] x by (simp add: substitute_plain)
          moreover have "substitute_at_once (hs @ [g]) (CHR ''%'' # ?x # ds)
              = (hs @ [g]) ! ?k @ substitute_at_once (hs @ [g]) ds"
            using l(2) by (intro substitute_digit) simp_all
          ultimately show ?thesis unfolding t cs c p new using ih by simp
        next
          case none
          have "substitute_at_once hs (CHR ''%'' # d # ds) = CHR ''%'' # d # substitute_at_once hs ds"
            using substitute_other [OF l(1), of d ds] none d by (simp add: substitute_plain)
          moreover have "substitute_at_once (hs @ [g]) (CHR ''%'' # d # ds)
              = CHR ''%'' # d # substitute_at_once (hs @ [g]) ds"
            using substitute_other [OF l(2), of d ds] none d by (simp add: substitute_plain)
          moreover have "d \<noteq> ?x" using none by simp
          ultimately show ?thesis unfolding t cs c p using ih d by simp
        qed
      qed
    qed
  qed
qed

lemma replace_groups_loop_at_once:
  assumes "length hs + length groups \<le> 9"
    and "\<forall>h\<in>set (hs @ groups). CHR ''%'' \<notin> set h"
    and "\<not> double_percent link" and "\<not> double_percent title"
  shows "replace_groups_loop (length hs) groups (substitute_at_once hs link) (substitute_at_once hs title)
           = (substitute_at_once (hs @ groups) link, substitute_at_once (hs @ groups) title)"
  using assms(1,2)
proof (induction groups arbitrary: hs)
  case Nil
  show ?case by simp
next
  case (Cons g groups)
  have k: "length hs < 9" and plain: "\<forall>h\<in>set hs. CHR ''%'' \<notin> set h"
    using Cons.prems by simp_all
  have p: "''%'' @ str_nat (length hs + 1) = placeholder (length hs)" by (simp add: placeholder_def)
  have ne: "placeholder (length hs) \<noteq> []" by (simp add: placeholder_def)
  have s: "str_replace (substitute_at_once hs t) (placeholder (length hs)) g = substitute_at_once (hs @ [g]) t"
    if "\<not> double_percent t" for t
    using substitute_step [OF k plain that, of g] ne by (simp add: str_replace_def)
  have "replace_groups_loop (length (hs @ [g])) groups
          (substitute_at_once (hs @ [g]) link) (substitute_at_once (hs @ [g]) title)
        = (substitute_at_once ((hs @ [g]) @ groups) link, substitute_at_once ((hs @ [g]) @ groups) title)"
    using Cons.prems by (intro Cons.IH) simp_all
  then show ?case
    unfolding replace_groups_loop.simps Let_def p s [OF assms(3)] s [OF assms(4)] by simp
qed

lemma placeholder_at_less: "placeholder_at n s = Some i \<Longrightarrow> i < n"
  by (induction n) (auto split: if_splits)

lemma late_placeholder_few: "n \<le> 9 \<Longrightarrow> \<not> late_placeholder n t"
proof (induction t)
  case Nil
  show ?case by simp
next
  case (Cons c cs)
  have "\<not> 9 \<le> i" if "placeholder_at n (c # cs) = Some i" for i
    using placeholder_at_less [OF that] Cons.prems by simp
  then show ?case using Cons by (auto split: option.splits)
qed

lemma late_placeholder_drop: "\<not> late_placeholder n t \<Longrightarrow> \<not> late_placeholder n (drop k t)"
proof (induction t arbitrary: k)
  case Nil
  show ?case by simp
next
  case (Cons c cs)
  show ?case
  proof (cases k)
    case 0
    then show ?thesis using Cons.prems by simp
  next
    case (Suc j)
    have "\<not> late_placeholder n cs" using Cons.prems by simp
    then show ?thesis using Cons.IH Suc by simp
  qed
qed

lemma placeholder_at_nine:
  assumes "9 \<le> n"
  shows "(case placeholder_at n s of None \<Rightarrow> True | Some i \<Rightarrow> i < 9) \<Longrightarrow>
     placeholder_at n s = placeholder_at 9 s"
  using assms
proof (induction n rule: nat_induct_at_least)
  case base
  show ?case by simp
next
  case (Suc m)
  show ?case
  proof (cases "take (length (placeholder m)) s = placeholder m")
    case True
    then have "placeholder_at (Suc m) s = Some m" by simp
    then show ?thesis using Suc.prems Suc.hyps by simp
  next
    case False
    then have e: "placeholder_at (Suc m) s = placeholder_at m s" by simp
    show ?thesis using Suc.IH Suc.prems unfolding e by simp
  qed
qed

lemma placeholder_length: "0 < length (placeholder i)"
  by (simp add: placeholder_def)

lemma substitute_nine:
  assumes "9 \<le> length gs"
  shows "\<not> late_placeholder (length gs) t \<Longrightarrow> substitute_at_once gs t = substitute_at_once (take 9 gs) t"
proof (induction "length t" arbitrary: t rule: less_induct)
  case less
  show ?case
  proof (cases t)
    case Nil
    then show ?thesis by simp
  next
    case (Cons c cs)
    have l: "length (take 9 gs) = 9" using assms by simp
    have n: "case placeholder_at (length gs) (c # cs) of None \<Rightarrow> True | Some i \<Rightarrow> i < 9"
      using less.prems unfolding Cons by (auto split: option.splits)
    have p: "placeholder_at (length gs) (c # cs) = placeholder_at 9 (c # cs)"
      using placeholder_at_nine [OF assms n] .
    show ?thesis
    proof (cases "placeholder_at 9 (c # cs)")
      case None
      have "\<not> late_placeholder (length gs) cs" using less.prems unfolding Cons by simp
      then have "substitute_at_once gs cs = substitute_at_once (take 9 gs) cs"
        using less.hyps [of cs] Cons by simp
      then show ?thesis unfolding Cons using None p l by (simp add: substitute_at_once.simps(2))
    next
      case (Some i)
      have i: "i < 9" using placeholder_at_less [OF Some] .
      let ?r = "drop (length (placeholder i)) (c # cs)"
      have "\<not> late_placeholder (length gs) ?r"
        using less.prems late_placeholder_drop unfolding Cons by blast
      moreover have "length ?r < length t" using placeholder_length [of i] unfolding Cons by simp
      ultimately have "substitute_at_once gs ?r = substitute_at_once (take 9 gs) ?r"
        using less.hyps [of ?r] by simp
      then show ?thesis unfolding Cons using Some p l i by (simp add: substitute_at_once.simps(2))
    qed
  qed
qed

lemma digit_char_digits: "nonzero_digit d \<Longrightarrow> \<exists>i<9. d = digit_char (Suc i)"
proof -
  assume "nonzero_digit d"
  then have "d \<in> set ''123456789''" unfolding nonzero_digit_def .
  then obtain i where "i < length ''123456789''" and "''123456789'' ! i = d"
    unfolding in_set_conv_nth by blast
  then have "i < 9" and "d = digit_char (Suc i)" by (simp_all add: digit_char_Suc)
  then show ?thesis by blast
qed

lemma digit_char_in_digits: "i < 9 \<Longrightarrow> nonzero_digit (digit_char (Suc i))"
  unfolding digit_char_Suc nonzero_digit_def by (intro nth_mem) simp

lemma str_nat_hd: "0 < n \<Longrightarrow> \<exists>d ds. str_nat n = d # ds \<and> nonzero_digit d"
proof (induction n rule: str_nat.induct)
  case (1 n)
  show ?case
  proof (cases "n < 10")
    case True
    then obtain i where n: "n = Suc i" and "i < 9" using "1.prems" by (cases n) auto
    then show ?thesis using digit_char_in_digits [of i] by (simp add: str_nat.simps [of "Suc i"])
  next
    case False
    then have "0 < n div 10" by simp
    then obtain d ds where "str_nat (n div 10) = d # ds" and "nonzero_digit d"
      using "1.IH" False by blast
    then show ?thesis using False by (simp add: str_nat.simps [of n])
  qed
qed

lemma percent_digit_tl: "percent_digit cs \<Longrightarrow> percent_digit (c # cs)"
  by (cases cs) simp_all

lemma replace_from_absent:
  assumes "nonzero_digit d"
  shows "\<not> percent_digit s \<Longrightarrow> replace_from (CHR ''%'' # d # r) new s = s"
proof (induction s)
  case Nil
  show ?case by simp
next
  case (Cons c cs)
  have t: "\<not> percent_digit cs" using Cons.prems percent_digit_tl by blast
  have "take (length (CHR ''%'' # d # r)) (c # cs) \<noteq> CHR ''%'' # d # r"
  proof
    assume "take (length (CHR ''%'' # d # r)) (c # cs) = CHR ''%'' # d # r"
    then obtain es where "c # cs = CHR ''%'' # d # es"
      by (cases cs) auto
    then show False using Cons.prems assms by simp
  qed
  then show ?case using Cons.IH [OF t] by auto
qed

lemma percent_digit_append:
  "CHR ''%'' \<notin> set xs \<Longrightarrow> percent_digit (xs @ ys) = percent_digit ys"
proof (induction xs)
  case Nil
  show ?case by simp
next
  case (Cons x xs)
  then have "percent_digit (xs @ ys) = percent_digit ys" by simp
  moreover have "percent_digit (x # xs @ ys) = percent_digit (xs @ ys)"
    using Cons.prems by (cases "xs @ ys") auto
  ultimately show ?case by simp
qed

lemma substitute_no_percent_digit:
  assumes l: "length hs = 9" and plain: "\<forall>h\<in>set hs. CHR ''%'' \<notin> set h"
  shows "\<not> double_percent t \<Longrightarrow> \<not> percent_digit (substitute_at_once hs t)"
proof (induction "length t" arbitrary: t rule: less_induct)
  case less
  have l9: "length hs \<le> 9" using l by simp
  show ?case
  proof (cases t)
    case Nil
    then show ?thesis by simp
  next
    case (Cons c cs)
    note t = Cons
    show ?thesis
    proof (cases "c = CHR ''%''")
      case False
      have "\<not> double_percent cs" using less.prems double_percent_tl t by blast
      then have "\<not> percent_digit (substitute_at_once hs cs)" using less.hyps [of cs] t by simp
      then have "\<not> percent_digit (c # substitute_at_once hs cs)"
        using False by (cases "substitute_at_once hs cs") simp_all
      then show ?thesis unfolding t using False by (simp add: substitute_plain)
    next
      case True
      note c = True
      show ?thesis
      proof (cases cs)
        case Nil
        then show ?thesis unfolding t c using l9 by (simp add: substitute_end)
      next
        case (Cons d ds)
        note cs = Cons
        have d: "d \<noteq> CHR ''%''" using less.prems unfolding t cs c by simp
        have "\<not> double_percent ds" using less.prems double_percent_tl unfolding t cs by blast
        then have ih: "\<not> percent_digit (substitute_at_once hs ds)"
          using less.hyps [of ds] unfolding t cs by simp
        show ?thesis
        proof (cases "nonzero_digit d")
          case True
          then obtain i where i: "i < 9" "d = digit_char (Suc i)"
            using digit_char_digits by blast
          have "CHR ''%'' \<notin> set (hs ! i)" using plain i(1) l by simp
          then have "\<not> percent_digit (hs ! i @ substitute_at_once hs ds)"
            using ih by (simp add: percent_digit_append)
          moreover have "substitute_at_once hs (CHR ''%'' # digit_char (Suc i) # ds)
              = hs ! i @ substitute_at_once hs ds"
            using l9 i(1) l by (intro substitute_digit) simp_all
          ultimately show ?thesis unfolding t cs c i(2) by simp
        next
          case False
          then have "\<forall>i<length hs. d \<noteq> digit_char (Suc i)"
            using digit_char_in_digits l by auto
          then have "substitute_at_once hs (CHR ''%'' # d # ds) = CHR ''%'' # d # substitute_at_once hs ds"
            using substitute_other [OF l9, of d ds] d by (simp add: substitute_plain)
          moreover have "\<not> percent_digit (CHR ''%'' # d # substitute_at_once hs ds)"
            using False d ih by (cases "substitute_at_once hs ds") simp_all
          ultimately show ?thesis unfolding t cs c by simp
        qed
      qed
    qed
  qed
qed

lemma replace_groups_loop_append:
  "replace_groups_loop i (xs @ ys) link title =
     replace_groups_loop (i + length xs) ys
       (fst (replace_groups_loop i xs link title)) (snd (replace_groups_loop i xs link title))"
proof (induction xs arbitrary: i link title)
  case Nil
  show ?case by simp
next
  case (Cons x xs)
  show ?case using Cons.IH [of "i + 1"] by (simp add: Let_def)
qed

lemma replace_groups_loop_absent:
  "\<not> percent_digit link \<Longrightarrow> \<not> percent_digit title \<Longrightarrow>
     replace_groups_loop i groups link title = (link, title)"
proof (induction groups arbitrary: i)
  case Nil
  show ?case by simp
next
  case (Cons g groups)
  obtain d ds where p: "str_nat (i + 1) = d # ds" and d: "nonzero_digit d"
    using str_nat_hd [of "i + 1"] by auto
  have "str_replace s (''%'' @ str_nat (i + 1)) g = s" if "\<not> percent_digit s" for s
    unfolding p using replace_from_absent [OF d that] by (simp add: str_replace_def)
  then show ?case using Cons by (simp add: Let_def)
qed

lemma underscores_map:
  "str_replace s ''_'' '' '' = map (\<lambda>c. if c = CHR ''_'' then CHR '' '' else c) s"
proof -
  have "replace_from ''_'' '' '' s = map (\<lambda>c. if c = CHR ''_'' then CHR '' '' else c) s"
    by (induction s) simp_all
  then show ?thesis by (simp add: str_replace_def)
qed

lemma double_percent_map:
  assumes "\<And>c. (f c = CHR ''%'') = (c = CHR ''%'')"
  shows "double_percent (map f s) = double_percent s"
  by (induction s rule: double_percent.induct) (simp_all add: assms)

lemma double_percent_underscores:
  "double_percent (str_replace title ''_'' '' '') = double_percent title"
  unfolding underscores_map by (rule double_percent_map) simp

lemma replace_groups_loop_fst:
  "fst (replace_groups_loop i groups link title) = fst (replace_groups_loop i groups link title')"
proof (induction groups arbitrary: i link title title')
  case Nil
  show ?case by simp
next
  case (Cons g groups)
  show ?case unfolding replace_groups_loop.simps Let_def by (rule Cons.IH)
qed

lemma replace_groups_loop_snd:
  "snd (replace_groups_loop i groups link title) = snd (replace_groups_loop i groups link' title)"
proof (induction groups arbitrary: i link link' title)
  case Nil
  show ?case by simp
next
  case (Cons g groups)
  show ?case unfolding replace_groups_loop.simps Let_def by (rule Cons.IH)
qed

lemma replace_groups_few:
  assumes "length groups \<le> 9" and "\<forall>g\<in>set groups. CHR ''%'' \<notin> set g"
    and "\<not> double_percent template"
  shows "replace_groups_loop 0 groups template template
           = (substitute_at_once groups template, substitute_at_once groups template)"
proof -
  have "replace_groups_loop (length ([] :: string list)) groups
          (substitute_at_once [] template) (substitute_at_once [] template)
        = (substitute_at_once ([] @ groups) template, substitute_at_once ([] @ groups) template)"
    using assms by (intro replace_groups_loop_at_once) simp_all
  then show ?thesis by (simp add: substitute_no_groups)
qed

lemma replace_groups_same:
  assumes "plain_substitution groups template"
  shows "replace_groups template template groups
           = (substitute_at_once groups template, substitute_at_once groups template)"
proof (cases "length groups \<le> 9")
  case True
  then show ?thesis
    using assms replace_groups_few [of groups template]
    by (simp add: plain_substitution_def list_all_iff replace_groups_def)
next
  case False
  let ?hs = "take 9 groups"
  let ?t = "substitute_at_once ?hs template"
  have plain: "\<forall>g\<in>set groups. CHR ''%'' \<notin> set g" and dp: "\<not> double_percent template"
    and late: "\<not> late_placeholder (length groups) template"
    using assms by (simp_all add: plain_substitution_def list_all_iff)
  have l: "length ?hs = 9" and n: "9 \<le> length groups" using False by simp_all
  have hs: "\<forall>g\<in>set ?hs. CHR ''%'' \<notin> set g" using plain in_set_takeD by fast
  have first: "replace_groups_loop 0 ?hs template template = (?t, ?t)"
    using l hs dp by (intro replace_groups_few) simp_all
  have pd: "\<not> percent_digit ?t" using substitute_no_percent_digit [OF l hs dp] .
  have "replace_groups_loop 0 (?hs @ drop 9 groups) template template
      = replace_groups_loop (0 + length ?hs) (drop 9 groups)
          (fst (replace_groups_loop 0 ?hs template template))
          (snd (replace_groups_loop 0 ?hs template template))"
    by (rule replace_groups_loop_append)
  also have "\<dots> = replace_groups_loop 9 (drop 9 groups) ?t ?t"
    unfolding first l by simp
  also have "\<dots> = (?t, ?t)" using pd pd by (rule replace_groups_loop_absent)
  finally have "replace_groups_loop 0 groups template template = (?t, ?t)" by simp
  moreover have "substitute_at_once groups template = ?t" using n late by (rule substitute_nine)
  ultimately show ?thesis by (simp add: replace_groups_def)
qed

lemma replace_groups_link:
  assumes "plain_substitution groups link"
  shows "fst (replace_groups link title groups) = substitute_at_once groups link"
proof -
  have "fst (replace_groups link title groups) = fst (replace_groups link link groups)"
    unfolding replace_groups_def by (rule replace_groups_loop_fst)
  then show ?thesis using replace_groups_same [OF assms] by simp
qed

lemma replace_groups_title:
  assumes "plain_substitution groups title"
  shows "snd (replace_groups link title groups) = substitute_at_once groups title"
proof -
  have "snd (replace_groups link title groups) = snd (replace_groups title title groups)"
    unfolding replace_groups_def by (rule replace_groups_loop_snd)
  then show ?thesis using replace_groups_same [OF assms] by simp
qed

lemma str_nat_plain: "\<forall>c\<in>set (str_nat n). c \<noteq> CHR ''_'' \<and> c \<noteq> CHR '' ''"
proof (induction n rule: str_nat.induct)
  case (1 n)
  have d: "digit_char k \<noteq> CHR ''_'' \<and> digit_char k \<noteq> CHR '' ''" if "k < 10" for k
  proof -
    have "''0123456789'' ! k \<in> set ''0123456789''" using that by (intro nth_mem) simp
    then show ?thesis unfolding digit_char_def by auto
  qed
  show ?case
  proof (cases "n < 10")
    case True
    then show ?thesis using d [of n] by (simp add: str_nat.simps [of n])
  next
    case False
    then show ?thesis using "1.IH" d [of "n mod 10"] by (simp add: str_nat.simps [of n])
  qed
qed

lemma placeholder_plain: "\<forall>c\<in>set (placeholder i). c \<noteq> CHR ''_'' \<and> c \<noteq> CHR '' ''"
  using str_nat_plain [of "i + 1"] by (simp add: placeholder_def)

lemma underscores_eq:
  "\<forall>c\<in>set p. c \<noteq> CHR ''_'' \<and> c \<noteq> CHR '' '' \<Longrightarrow>
     (map (\<lambda>c. if c = CHR ''_'' then CHR '' '' else c) xs = p) = (xs = p)"
proof (induction xs arbitrary: p)
  case Nil
  show ?case by auto
next
  case (Cons x xs)
  show ?case
  proof (cases p)
    case Nil
    then show ?thesis by simp
  next
    case (Cons y ys)
    then show ?thesis using Cons.IH [of ys] Cons.prems by auto
  qed
qed

lemma placeholder_at_underscores:
  "placeholder_at n (map (\<lambda>c. if c = CHR ''_'' then CHR '' '' else c) s) = placeholder_at n s"
proof (induction n)
  case 0
  show ?case by simp
next
  case (Suc n)
  have "(take (length (placeholder n)) (map (\<lambda>c. if c = CHR ''_'' then CHR '' '' else c) s) = placeholder n)
      = (take (length (placeholder n)) s = placeholder n)"
    unfolding take_map using placeholder_plain by (rule underscores_eq)
  then show ?case using Suc by simp
qed

lemma late_placeholder_underscores:
  "late_placeholder n (map (\<lambda>c. if c = CHR ''_'' then CHR '' '' else c) s) = late_placeholder n s"
proof (induction s)
  case Nil
  show ?case by simp
next
  case (Cons c cs)
  have "placeholder_at n (map (\<lambda>c. if c = CHR ''_'' then CHR '' '' else c) (c # cs))
      = placeholder_at n (c # cs)"
    by (rule placeholder_at_underscores)
  then have "placeholder_at n ((if c = CHR ''_'' then CHR '' '' else c)
        # map (\<lambda>c. if c = CHR ''_'' then CHR '' '' else c) cs) = placeholder_at n (c # cs)"
    by simp
  then show ?case using Cons by simp
qed

lemma plain_substitution_underscores:
  "plain_substitution groups (str_replace title ''_'' '' '') = plain_substitution groups title"
  unfolding plain_substitution_def double_percent_underscores
  by (simp add: underscores_map late_placeholder_underscores)

lemma get_links_rules:
  "list_all2
     (\<lambda>result (pattern, link, title).
        \<exists>groups l t. pattern_groups pattern tag = Some groups \<and> result = Some (l, t)
          \<and> (plain_substitution groups link \<longrightarrow> l = substitute_at_once groups link)
          \<and> (plain_substitution groups title \<longrightarrow>
               t = substitute_at_once groups (str_replace title ''_'' '' '')))
     (map (\<lambda>l. get_link l tag) (filter (\<lambda>l. TagStatLink_matches l tag) (map compiled_link rules)))
     (filter (\<lambda>(pattern, link, title). pattern_groups pattern tag \<noteq> None) rules)"
proof (induction rules)
  case Nil
  show ?case by simp
next
  case (Cons rule rules)
  obtain pattern link title where r: "rule = (pattern, link, title)" by (cases rule) auto
  have m: "re_match (link_regexp (compiled_link rule)) tag = pattern_groups pattern tag"
    unfolding r by (rule compiled_link_match)
  have f: "link_link (compiled_link rule) = link"
    "link_title (compiled_link rule) = str_replace title ''_'' '' ''"
    by (simp_all add: r compiled_link_def)
  show ?case
  proof (cases "pattern_groups pattern tag")
    case None
    then show ?thesis using Cons.IH m
      by (simp add: TagStatLink_matches_def r)
  next
    case (Some groups)
    obtain l t where lt: "replace_groups link (str_replace title ''_'' '' '') groups = (l, t)"
      by (cases "replace_groups link (str_replace title ''_'' '' '') groups") auto
    have g: "get_link (compiled_link rule) tag = Some (l, t)"
      using Some m f lt by (simp add: get_link_def)
    have a: "plain_substitution groups link \<longrightarrow> l = substitute_at_once groups link"
      using replace_groups_link [of groups link "str_replace title ''_'' '' ''"] lt by simp
    have b: "plain_substitution groups title \<longrightarrow>
               t = substitute_at_once groups (str_replace title ''_'' '' '')"
      using replace_groups_title [of groups "str_replace title ''_'' '' ''" link] lt
      by (simp add: plain_substitution_underscores)
    show ?thesis using Cons.IH m Some g a b
      by (simp add: TagStatLink_matches_def r)
  qed
qed

lemmas link_eval =
  TagStatInfo_init_def TagStatLink_init_def get_links_def get_link_def TagStatLink_matches_def
  replace_groups_def str_replace_def str_nat.simps digit_char_def

lemmas at_once_eval =
  substitute_at_once.simps(2) placeholder_def str_nat.simps digit_char_def

lemma example_links:
  "\<exists>info. TagStatInfo_init TagPatterns [] [(''*_*'', ''http://x/%1/%2'', ''Tag_%2'')] = Inr info
      \<and> get_links info ''left_right'' = [Some (''http://x/left/right'', ''Tag right'')]"
  by (simp add: link_eval pattern_eval match_eval)

text \<open>
  C6, as amended. For every list of link rules and every tag, \<^verbatim>\<open>TagStatInfo\<close> is built
  without an error, and \<^verbatim>\<open>get_links\<close> returns, in the order of the rules, one pair of
  link and title for each rule whose pattern matches the tag and nothing for the
  others. When no captured group holds a percent sign, then in the link each captured
  group stands in the place of its positional placeholder \<^verbatim>\<open>%1\<close>, \<^verbatim>\<open>%2\<close>, ...,
  provided that the link template has neither two percent signs side by side nor the
  placeholder of a tenth or later group; and likewise in the title, under the same
  proviso for the title template, whose underscores are replaced by spaces before the
  substitution. With the rule \<^verbatim>\<open>*_*\<close>, \<^verbatim>\<open>http://x/%1/%2\<close>, \<^verbatim>\<open>Tag_%2\<close> the tag
  \<^verbatim>\<open>left_right\<close> gets the link \<^verbatim>\<open>http://x/left/right\<close> and the title \<^verbatim>\<open>Tag right\<close>.
\<close>

theorem get_links_substitutes:
  "(\<exists>info. TagStatInfo_init TagPatterns docs rules = Inr info
      \<and> list_all2
           (\<lambda>result (pattern, link, title).
              \<exists>groups l t. pattern_groups pattern tag = Some groups \<and> result = Some (l, t)
                \<and> (plain_substitution groups link \<longrightarrow> l = substitute_at_once groups link)
                \<and> (plain_substitution groups title \<longrightarrow>
                     t = substitute_at_once groups (str_replace title ''_'' '' '')))
           (get_links info tag)
           (filter (\<lambda>(pattern, link, title). pattern_groups pattern tag \<noteq> None) rules))
   \<and> (\<exists>info. TagStatInfo_init TagPatterns [] [(''*_*'', ''http://x/%1/%2'', ''Tag_%2'')] = Inr info
      \<and> get_links info ''left_right'' = [Some (''http://x/left/right'', ''Tag right'')])"
proof
  show "\<exists>info. TagStatInfo_init TagPatterns docs rules = Inr info
      \<and> list_all2
           (\<lambda>result (pattern, link, title).
              \<exists>groups l t. pattern_groups pattern tag = Some groups \<and> result = Some (l, t)
                \<and> (plain_substitution groups link \<longrightarrow> l = substitute_at_once groups link)
                \<and> (plain_substitution groups title \<longrightarrow>
                     t = substitute_at_once groups (str_replace title ''_'' '' '')))
           (get_links info tag)
           (filter (\<lambda>(pattern, link, title). pattern_groups pattern tag \<noteq> None) rules)"
    using get_links_rules [of tag rules]
    by (simp add: TagStatInfo_init_total get_links_def)
  show "\<exists>info. TagStatInfo_init TagPatterns [] [(''*_*'', ''http://x/%1/%2'', ''Tag_%2'')] = Inr info
      \<and> get_links info ''left_right'' = [Some (''http://x/left/right'', ''Tag right'')]"
    by (rule example_links)
qed

theorem get_links_substitutes_witness:
  "plain_substitution [''a-b-c-d-e-f-g-h-i-j''] ''http://y/%1''
   \<and> plain_substitution [''a-b-c-d-e-f-g-h-i-j''] ''T_%1_''
   \<and> plain_substitution [''a'', ''b'', ''c'', ''d'', ''e'', ''f'', ''g'', ''h'', ''i'', ''j''] ''%9%1''
   \<and> plain_substitution [''a'', ''b'', ''c'', ''d'', ''e'', ''f'', ''g'', ''h'', ''i'', ''j''] ''%11_%3''
   \<and> (\<exists>info. TagStatInfo_init simple_patterns []
             [(''x'', ''l'', ''t''), (''*'', ''http://y/%1'', ''T_%1_''),
              (''?-?-?-?-?-?-?-?-?-?'', ''%9%1'', ''%11_%3'')] = Inr info
      \<and> get_links info ''a-b-c-d-e-f-g-h-i-j''
          = [Some (''http://y/a-b-c-d-e-f-g-h-i-j'', ''T a-b-c-d-e-f-g-h-i-j ''),
             Some (''ia'', ''a1 c'')])"
  using get_links_substitutes [of simple_patterns "[]"
      "[(''x'', ''l'', ''t''), (''*'', ''http://y/%1'', ''T_%1_''),
        (''?-?-?-?-?-?-?-?-?-?'', ''%9%1'', ''%11_%3'')]" "''a-b-c-d-e-f-g-h-i-j''"]
  by (simp add: plain_substitution_def pattern_groups_def pattern_eval match_eval at_once_eval
      str_replace_def list_all2_Cons2)

text \<open>
  The claim C6 as stated, for every rule and tag, fails in three ways, because the
  groups are substituted one after the other, each in the text that the earlier ones
  have left. With ten groups the tenth never reaches its placeholder \<^verbatim>\<open>%10\<close>, which
  the first group has already turned into its own text and a \<^verbatim>\<open>0\<close>. A group that
  holds the placeholder of a later group is itself rewritten. And a percent sign in
  front of a placeholder forms a new placeholder with a digit that follows the
  substituted text. In each case the result of \<^verbatim>\<open>get_links\<close> is given first, then the
  captured groups and the text in which each stands in the place of its placeholder.
\<close>

theorem get_links_substitutes_counterexample:
  "links_for [(''?-?-?-?-?-?-?-?-?-?'', ''%10/%1'', ''t'')] ''a-b-c-d-e-f-g-h-i-j''
     = Inr [Some (''a0/a'', ''t'')]
   \<and> pattern_groups ''?-?-?-?-?-?-?-?-?-?'' ''a-b-c-d-e-f-g-h-i-j''
       = Some [''a'', ''b'', ''c'', ''d'', ''e'', ''f'', ''g'', ''h'', ''i'', ''j'']
   \<and> substitute_at_once [''a'', ''b'', ''c'', ''d'', ''e'', ''f'', ''g'', ''h'', ''i'', ''j''] ''%10/%1''
       = ''j/a''
   \<and> links_for [(''*_*'', ''%1'', ''t'')] ''%2_x'' = Inr [Some (''x'', ''t'')]
   \<and> pattern_groups ''*_*'' ''%2_x'' = Some [''%2'', ''x'']
   \<and> substitute_at_once [''%2'', ''x''] ''%1'' = ''%2''
   \<and> links_for [(''*_*'', ''%%12'', ''t'')] ''_x'' = Inr [Some (''x'', ''t'')]
   \<and> pattern_groups ''*_*'' ''_x'' = Some ['''', ''x'']
   \<and> substitute_at_once ['''', ''x''] ''%%12'' = ''%2''"
  by (simp add: links_for_def link_eval pattern_groups_def pattern_eval match_eval at_once_eval)

section \<open>What a match means\<close>

lemma re_run_star:
  assumes "re_run ic (RAnyStar # RClose # ts) st s (Some g) gs = Some r"
  shows "\<exists>k st'. k \<le> length s \<and> CHR 0x0A \<notin> set (take k s)
           \<and> re_run ic ts st' (drop k s) None (gs @ [g @ take k s]) = Some r"
  using assms
proof (induction s arbitrary: st g)
  case Nil
  then have "re_run ic ts st [] None (gs @ [g]) = Some r" by simp
  then show ?case by force
next
  case (Cons c s)
  show ?case
  proof (cases "c \<noteq> CHR 0x0A \<and> re_run ic (RAnyStar # RClose # ts) False s (grow (Some g) c) gs \<noteq> None")
    case True
    then have "re_run ic (RAnyStar # RClose # ts) False s (Some (g @ [c])) gs = Some r"
      using Cons.prems by (auto simp: grow_def)
    from Cons.IH [OF this] obtain k st' where k: "k \<le> length s" "CHR 0x0A \<notin> set (take k s)"
      "re_run ic ts st' (drop k s) None (gs @ [(g @ [c]) @ take k s]) = Some r"
      by blast
    have "Suc k \<le> length (c # s)" "CHR 0x0A \<notin> set (take (Suc k) (c # s))"
      "re_run ic ts st' (drop (Suc k) (c # s)) None (gs @ [g @ take (Suc k) (c # s)]) = Some r"
      using k True by auto
    then show ?thesis by blast
  next
    case False
    then have "re_run ic (RClose # ts) st (c # s) (Some g) gs = Some r"
      using Cons.prems by (auto split: if_splits option.splits)
    then have "re_run ic ts st (drop 0 (c # s)) None (gs @ [g @ take 0 (c # s)]) = Some r" by simp
    then show ?thesis by (metis le0 take_0 empty_iff list.set(1))
  qed
qed

lemma re_run_dots:
  assumes "re_run ic (replicate n RAny @ RClose # ts) st s (Some g) gs = Some r"
  shows "\<exists>st'. n \<le> length s \<and> CHR 0x0A \<notin> set (take n s)
           \<and> re_run ic ts st' (drop n s) None (gs @ [g @ take n s]) = Some r"
  using assms
proof (induction n arbitrary: st s g)
  case 0
  then show ?case by auto
next
  case (Suc n)
  from Suc.prems obtain c s' where s: "s = c # s'" by (cases s) auto
  have c: "c \<noteq> CHR 0x0A" and "re_run ic (replicate n RAny @ RClose # ts) False s' (Some (g @ [c])) gs = Some r"
    using Suc.prems by (auto simp: s grow_def split: if_splits)
  from Suc.IH [OF this(2)] obtain st' where "n \<le> length s'" "CHR 0x0A \<notin> set (take n s')"
    "re_run ic ts st' (drop n s') None (gs @ [(g @ [c]) @ take n s']) = Some r"
    by blast
  then show ?case using c by (auto simp: s)
qed

lemma re_run_wildcards:
  assumes "re_run True (concat (map wildcard_tokens ws) @ [REnd]) st s None gs = Some r"
  shows "\<exists>groups. r = gs @ groups
           \<and> (instance_of ws groups s \<or> (\<exists>s'. s = s' @ [CHR 0x0A] \<and> instance_of ws groups s'))"
  using assms
proof (induction ws arbitrary: st s gs)
  case Nil
  then have "(s = [] \<or> s = [CHR 0x0A]) \<and> r = gs" by (auto split: if_splits)
  then show ?case by auto
next
  case (Cons w ws)
  show ?case
  proof (cases w)
    case (Literal c)
    from Cons.prems obtain x xs where s: "s = x # xs" by (cases s) (auto simp: Literal)
    have eq: "ascii_lower c = ascii_lower x"
      and "re_run True (concat (map wildcard_tokens ws) @ [REnd]) False xs None gs = Some r"
      using Cons.prems by (auto simp: Literal s chars_equal_def grow_def split: if_splits)
    from Cons.IH [OF this(2)] obtain groups where g: "r = gs @ groups"
      "instance_of ws groups xs \<or> (\<exists>s'. xs = s' @ [CHR 0x0A] \<and> instance_of ws groups s')"
      by blast
    show ?thesis
    proof (cases "instance_of ws groups xs")
      case True
      then show ?thesis using g eq by (auto simp: Literal s)
    next
      case False
      then obtain s' where "xs = s' @ [CHR 0x0A]" "instance_of ws groups s'" using g by blast
      then have "s = (x # s') @ [CHR 0x0A]" "instance_of (w # ws) groups (x # s')"
        using eq by (simp_all add: Literal s)
      then show ?thesis using g(1) by blast
    qed
  next
    case Star
    have "re_run True (RAnyStar # RClose # concat (map wildcard_tokens ws) @ [REnd]) st s (Some []) gs = Some r"
      using Cons.prems by (simp add: Star)
    from re_run_star [OF this] obtain k st' where k: "k \<le> length s" "CHR 0x0A \<notin> set (take k s)"
      "re_run True (concat (map wildcard_tokens ws) @ [REnd]) st' (drop k s) None (gs @ [take k s]) = Some r"
      by auto
    from Cons.IH [OF k(3)] obtain groups where g: "r = (gs @ [take k s]) @ groups"
      "instance_of ws groups (drop k s) \<or> (\<exists>s'. drop k s = s' @ [CHR 0x0A] \<and> instance_of ws groups s')"
      by blast
    show ?thesis
    proof (cases "instance_of ws groups (drop k s)")
      case True
      then have "instance_of (w # ws) (take k s # groups) s" using k by (simp add: Star min_absorb2)
      then show ?thesis using g(1) by auto
    next
      case False
      then obtain s' where s': "drop k s = s' @ [CHR 0x0A]" "instance_of ws groups s'" using g by blast
      have "s = (take k s @ s') @ [CHR 0x0A]"
        using s'(1) by (metis append_assoc append_take_drop_id)
      moreover have "instance_of (w # ws) (take k s # groups) (take k s @ s')"
        using k s'(2) by (simp add: Star min_absorb2)
      ultimately show ?thesis using g(1) by (metis append_Cons append_Nil append_assoc)
    qed
  next
    case (Questions n)
    have "re_run True (replicate n RAny @ RClose # concat (map wildcard_tokens ws) @ [REnd]) st s (Some []) gs = Some r"
      using Cons.prems by (simp add: Questions)
    from re_run_dots [OF this] obtain st' where k: "n \<le> length s" "CHR 0x0A \<notin> set (take n s)"
      "re_run True (concat (map wildcard_tokens ws) @ [REnd]) st' (drop n s) None (gs @ [take n s]) = Some r"
      by auto
    from Cons.IH [OF k(3)] obtain groups where g: "r = (gs @ [take n s]) @ groups"
      "instance_of ws groups (drop n s) \<or> (\<exists>s'. drop n s = s' @ [CHR 0x0A] \<and> instance_of ws groups s')"
      by blast
    show ?thesis
    proof (cases "instance_of ws groups (drop n s)")
      case True
      then have "instance_of (w # ws) (take n s # groups) s" using k by (simp add: Questions min_absorb2)
      then show ?thesis using g(1) by auto
    next
      case False
      then obtain s' where s': "drop n s = s' @ [CHR 0x0A]" "instance_of ws groups s'" using g by blast
      have "s = (take n s @ s') @ [CHR 0x0A]"
        using s'(1) by (metis append_assoc append_take_drop_id)
      moreover have "instance_of (w # ws) (take n s # groups) (take n s @ s')"
        using k s'(2) by (simp add: Questions min_absorb2)
      ultimately show ?thesis using g(1) by (metis append_Cons append_Nil append_assoc)
    qed
  qed
qed

text \<open>
  What a match means: when the compiled pattern matches a tag, the tag is an instance
  of the pattern with the captured groups in the places of the wildcards, from its
  first character to its last; only a newline that ends the tag may be left over, as
  \<^verbatim>\<open>$\<close> also matches before it.
\<close>

lemma pattern_groups_instance:
  assumes "pattern_groups pattern tag = Some groups"
  shows "instance_of (wildcards pattern) groups tag
         \<or> (\<exists>s'. tag = s' @ [CHR 0x0A] \<and> instance_of (wildcards pattern) groups s')"
proof -
  have "re_run True (concat (map wildcard_tokens (wildcards pattern)) @ [REnd]) True tag None [] = Some groups"
    using assms
    by (simp add: pattern_groups_def get_match_regexp_tokens re_match_def glob_tokens_wildcards)
  from re_run_wildcards [OF this] show ?thesis by simp
qed

section \<open>Combined tags\<close>

lemma add_times_add: "add_times m (add_times n st test) test = add_times (n + m) st test"
  by (induction n arbitrary: st) simp_all

lemma add_times_Suc: "TagStat_add_test (add_times n st test) test = add_times (Suc n) st test"
  using add_times_add [of 1 n st test] by simp

lemma TagStat_add_test_total: "Stat_total (TagStat_add_test st test) = Stat_total st + 1"
  by (simp add: TagStat_add_test_def Stat_add_test_def Stat_total_def Let_def)

lemma TagStat_add_test_tests: "tests (TagStat_add_test st test) = tests st @ [test]"
  by (simp add: TagStat_add_test_def Stat_add_test_def Let_def)

lemma add_times_total: "Stat_total (add_times n st test) = Stat_total st + int n"
  by (induction n arbitrary: st) (simp_all add: TagStat_add_test_total)

lemma add_times_tests: "tests (add_times n st test) = tests st @ replicate n test"
  by (induction n arbitrary: st) (simp_all add: TagStat_add_test_tests replicate_app_Cons_same)

lemma stats_getitem_contains_iff:
  "stats_contains self k = (\<exists>st. stats_getitem self k = Inr st)"
  by (auto simp: stats_contains_def stats_getitem_def split: option.splits)

lemma add_tags_statistics_loop_key:
  assumes "add_tags_statistics_loop self test crit tgs = Inr self1"
    and "stats_getitem self k = Inr st"
  shows "stats_getitem self1 k =
           Inr (add_times (length (filter (\<lambda>tag. is_included self tag \<and> same_key self tag k) tgs)) st test)"
  using assms
proof (induction tgs arbitrary: self st)
  case Nil
  then show ?case by simp
next
  case (Cons tag rest)
  show ?case
  proof (cases "is_included self tag")
    case False
    then show ?thesis using Cons.prems Cons.IH [of self st] by simp
  next
    case True
    define self1' where "self1' =
      (if \<not> stats_contains self tag
       then stats_setitem self tag
              (TagStat_init tag (get_doc (ts_info self) tag) (get_links (ts_info self) tag)
                 (is_critical crit tag) (is_non_critical crit tag) [])
       else self)"
    have cfg1: "normalize self1' = normalize self" "ts_include self1' = ts_include self"
      "ts_exclude self1' = ts_exclude self"
      by (simp_all add: self1'_def)
    have "stats_contains self1' tag"
      by (simp add: self1'_def stats_contains_setitem)
    then obtain stt where stt: "stats_getitem self1' tag = Inr stt"
      using stats_getitem_contains by blast
    let ?self2 = "stats_setitem self1' tag (TagStat_add_test stt test)"
    have r: "add_tags_statistics_loop ?self2 test crit rest = Inr self1"
      using Cons.prems(1) True stt by (simp add: self1'_def [symmetric] Let_def)
    have inc: "\<And>t. is_included ?self2 t = is_included self t"
      by (simp add: is_included_def cfg1)
    have sk: "\<And>t. same_key ?self2 t k = same_key self t k"
      by (simp add: same_key_def cfg1)
    have k1: "stats_getitem self1' k = Inr st"
    proof (cases "stats_contains self tag")
      case True
      then show ?thesis using Cons.prems(2) by (simp add: self1'_def)
    next
      case False
      have "stats_contains self k" using Cons.prems(2) stats_getitem_contains_iff by blast
      then have "normalize self k \<noteq> normalize self tag"
        using False by (auto simp: stats_contains_def)
      then show ?thesis using False Cons.prems(2) by (simp add: self1'_def stats_getitem_setitem)
    qed
    show ?thesis
    proof (cases "same_key self tag k")
      case sk1: True
      then have eq: "normalize self1' k = normalize self1' tag" by (simp add: same_key_def cfg1)
      then have "stt = st" using stt k1 by (simp add: stats_getitem_def)
      then have k2: "stats_getitem ?self2 k = Inr (add_times 1 st test)"
        using eq by (simp add: stats_getitem_setitem)
      show ?thesis
        using Cons.IH [OF r k2] True sk1 by (simp add: inc sk add_times_add)
    next
      case sk0: False
      then have "normalize self1' k \<noteq> normalize self1' tag" by (auto simp: same_key_def cfg1)
      then have k2: "stats_getitem ?self2 k = Inr st"
        using k1 by (simp add: stats_getitem_setitem)
      show ?thesis
        using Cons.IH [OF r k2] True sk0 by (simp add: inc sk)
    qed
  qed
qed

lemma add_combined_statistics_loop_key:
  assumes "add_combined_statistics_loop self test combs = Inr self1"
    and "stats_getitem self k = Inr st"
  shows "stats_getitem self1 k =
           Inr (add_times (length (filter (\<lambda>comb. CombinedTag_match comb (tags test)
                                  \<and> same_key self (comb_name comb) k) combs)) st test)"
  using assms
proof (induction combs arbitrary: self st)
  case Nil
  then show ?case by simp
next
  case (Cons comb rest)
  show ?case
  proof (cases "CombinedTag_match comb (tags test)")
    case False
    then show ?thesis using Cons.prems Cons.IH [of self st] by simp
  next
    case True
    obtain stc where stc: "stats_getitem self (comb_name comb) = Inr stc"
      using Cons.prems(1) True by (auto split: sum.splits)
    let ?self2 = "stats_setitem self (comb_name comb) (TagStat_add_test stc test)"
    have r: "add_combined_statistics_loop ?self2 test rest = Inr self1"
      using Cons.prems(1) True stc by simp
    have sk: "\<And>t. same_key ?self2 t k = same_key self t k"
      by (simp add: same_key_def)
    show ?thesis
    proof (cases "same_key self (comb_name comb) k")
      case sk1: True
      then have eq: "normalize self k = normalize self (comb_name comb)" by (simp add: same_key_def)
      then have "stc = st" using stc Cons.prems(2) by (simp add: stats_getitem_def)
      then have k2: "stats_getitem ?self2 k = Inr (add_times 1 st test)"
        using eq by (simp add: stats_getitem_setitem)
      show ?thesis
        using Cons.IH [OF r k2] True sk1 by (simp add: sk add_times_add)
    next
      case sk0: False
      then have "normalize self k \<noteq> normalize self (comb_name comb)" by (auto simp: same_key_def)
      then have k2: "stats_getitem ?self2 k = Inr st"
        using Cons.prems(2) by (simp add: stats_getitem_setitem)
      show ?thesis
        using Cons.IH [OF r k2] True sk0 by (simp add: sk)
    qed
  qed
qed

lemma TagStatistics_add_tests_seeded:
  assumes "combined_seeded self"
  shows "\<exists>self'. TagStatistics_add_tests self runs = Inr self' \<and> combined_seeded self'"
  using assms
proof (induction runs arbitrary: self)
  case Nil
  then show ?case by simp
next
  case (Cons run rest)
  obtain test crit where r: "run = (test, crit)" by (cases run) auto
  obtain self1 where a: "TagStatistics_add_test self test crit = Inr self1"
    and s1: "combined_seeded self1"
    using TagStatistics_add_test_total [OF Cons.prems] by blast
  show ?case using Cons.IH [OF s1] a by (simp add: r)
qed

lemma TagStatistics_add_tests_config:
  "TagStatistics_add_tests self runs = Inr self' \<Longrightarrow> combined_seeded self \<Longrightarrow> combined_seeded self'"
  using TagStatistics_add_tests_seeded [of self runs] by auto

lemma TagStatistics_init_total:
  "\<exists>ts. TagStatistics_init TagPatterns norm incl excl combine docs lnks = Inr ts"
  by (simp add: TagStatistics_init_def TagStatInfo_init_total Let_def split: prod.splits)

lemma TagStatistics_add_tests_total:
  "\<exists>ts0 self. TagStatistics_init TagPatterns norm incl excl combine docs lnks = Inr ts0
      \<and> TagStatistics_add_tests ts0 runs = Inr self"
proof -
  obtain ts0 where i: "TagStatistics_init TagPatterns norm incl excl combine docs lnks = Inr ts0"
    using TagStatistics_init_total by blast
  then show ?thesis
    using TagStatistics_add_tests_seeded [OF TagStatistics_init_seeded [OF i], of runs] by blast
qed

text \<open>
  C4. Take a tag aggregator as its constructor builds it, after any run of
  \<^verbatim>\<open>add_test\<close> calls, and any test. For every combined-tag definition whose pattern
  matches the tags of the test, \<^verbatim>\<open>add_test\<close> returns without an error, and the
  \<^verbatim>\<open>TagStat\<close> stored under the definition's name is counted up and gets the test
  appended, at least once. Nothing is assumed about the include and exclude patterns.
  When they reject every tag of the test, the count goes up by exactly the number of
  matching definitions stored under that name (one, when the names differ). The two
  premises on the state hold for every configuration and every run, by
  \<open>TagStatistics_add_tests_total\<close>.
\<close>

theorem combined_counted_regardless:
  assumes "TagStatistics_init TagPatterns norm incl excl combine docs lnks = Inr ts0"
    and "TagStatistics_add_tests ts0 earlier = Inr self"
    and "comb \<in> set (ts_combine self)"
    and "CombinedTag_match comb (tags test)"
  shows "\<exists>self' st st' n.
           TagStatistics_add_test self test crit = Inr self'
           \<and> stats_getitem self (comb_name comb) = Inr st
           \<and> stats_getitem self' (comb_name comb) = Inr st'
           \<and> 1 \<le> n
           \<and> Stat_total st' = Stat_total st + int n
           \<and> tests st' = tests st @ replicate n test
           \<and> (list_all (\<lambda>tag. \<not> is_included self tag) (tags test) \<longrightarrow>
                n = length (filter (\<lambda>c. CombinedTag_match c (tags test)
                                        \<and> same_key self (comb_name c) (comb_name comb))
                             (ts_combine self)))"
proof -
  let ?k = "comb_name comb"
  have seeded: "combined_seeded self"
    using TagStatistics_add_tests_config [OF assms(2) TagStatistics_init_seeded [OF assms(1)]] .
  then have "stats_contains self ?k"
    using assms(3) by (simp add: combined_seeded_def list_all_iff)
  then obtain st where st: "stats_getitem self ?k = Inr st"
    using stats_getitem_contains by blast
  obtain s1 where a: "add_tags_statistics_loop self test crit (tags test) = Inr s1"
    and c1: "same_config self s1"
    using add_tags_statistics_loop_total by blast
  define n1 where "n1 = length (filter (\<lambda>tag. is_included self tag \<and> same_key self tag ?k) (tags test))"
  have k1: "stats_getitem s1 ?k = Inr (add_times n1 st test)"
    unfolding n1_def by (rule add_tags_statistics_loop_key [OF a st])
  have cfg: "ts_combine s1 = ts_combine self" "normalize s1 = normalize self"
    using c1 by (simp_all add: same_config_def)
  have "combined_seeded s1" using same_config_seeded [OF c1 seeded] .
  then obtain s2 where b: "add_combined_statistics_loop s1 test (ts_combine s1) = Inr s2"
    using add_combined_statistics_loop_total [of s1 "ts_combine s1" test]
    by (auto simp: combined_seeded_def)
  define n2 where "n2 = length (filter (\<lambda>c. CombinedTag_match c (tags test)
                                        \<and> same_key self (comb_name c) ?k) (ts_combine self))"
  have sk: "\<And>x y. same_key s1 x y = same_key self x y" by (simp add: same_key_def cfg)
  have k2: "stats_getitem s2 ?k = Inr (add_times n2 (add_times n1 st test) test)"
    using add_combined_statistics_loop_key [OF b k1] by (simp add: n2_def cfg sk)
  have "comb \<in> set (filter (\<lambda>c. CombinedTag_match c (tags test)
                                        \<and> same_key self (comb_name c) ?k) (ts_combine self))"
    using assms(3,4) by (simp add: same_key_def)
  then have pos: "1 \<le> n2"
    unfolding n2_def by (metis One_nat_def Suc_leI length_pos_if_in_set)
  have r: "TagStatistics_add_test self test crit = Inr s2"
    using a b by (simp add: TagStatistics_add_test_def add_tags_statistics_def add_combined_statistics_def)
  have rej: "list_all (\<lambda>tag. \<not> is_included self tag) (tags test) \<Longrightarrow> n1 = 0"
    by (auto simp: n1_def list_all_iff filter_empty_conv)
  let ?st' = "add_times (n1 + n2) st test"
  have k2': "stats_getitem s2 ?k = Inr ?st'" using k2 by (simp add: add_times_add)
  have "1 \<le> n1 + n2" using pos by simp
  moreover have "Stat_total ?st' = Stat_total st + int (n1 + n2)" by (rule add_times_total)
  moreover have "tests ?st' = tests st @ replicate (n1 + n2) test" by (rule add_times_tests)
  moreover have "list_all (\<lambda>tag. \<not> is_included self tag) (tags test) \<longrightarrow>
                n1 + n2 = length (filter (\<lambda>c. CombinedTag_match c (tags test)
                                        \<and> same_key self (comb_name c) ?k) (ts_combine self))"
    using rej by (simp add: n2_def)
  ultimately show ?thesis using r st k2' by blast
qed

lemma example_combined_stats_init:
  "TagStatistics_init simple_patterns (\<lambda>s. s) [''keep''] [] [(''a'', ''A-comb'')] [] []
     = Inr example_combined_stats"
  by (simp add: TagStatistics_init_def TagStatInfo_init_def create_combined_def example_combined_stats_def
      CombinedTag_init_def stats_setitem_def get_doc_def get_links_def)

theorem combined_counted_regardless_witness:
  "\<not> is_included example_combined_stats ''a''
   \<and> (\<exists>self' st'.
        TagStatistics_add_test example_combined_stats
          \<lparr>status = ''PASS'', test_critical = ''yes'', tags = [''a'']\<rparr> example_criticality = Inr self'
        \<and> stats_getitem self' ''A-comb'' = Inr st'
        \<and> Stat_total st' = 1
        \<and> tests st' = [\<lparr>status = ''PASS'', test_critical = ''yes'', tags = [''a'']\<rparr>])"
proof -
  let ?t = "\<lparr>status = ''PASS'', test_critical = ''yes'', tags = [''a'']\<rparr>"
  let ?c = "\<lparr>comb_pattern = ''a'', comb_matcher = simple_patterns [''a''], comb_name = ''A-comb''\<rparr>"
  have rej: "\<not> is_included example_combined_stats ''a''"
    by (simp add: is_included_def example_combined_stats_def simple_patterns_def)
  have h2: "TagStatistics_add_tests example_combined_stats [] = Inr example_combined_stats" by simp
  have h3: "?c \<in> set (ts_combine example_combined_stats)"
    by (simp add: example_combined_stats_def)
  have h4: "CombinedTag_match ?c (tags ?t)"
    by (simp add: CombinedTag_match_def simple_patterns_def)
  obtain self' st st' n where r: "TagStatistics_add_test example_combined_stats ?t example_criticality = Inr self'"
    and s: "stats_getitem example_combined_stats (comb_name ?c) = Inr st"
    and s': "stats_getitem self' (comb_name ?c) = Inr st'"
    and t: "Stat_total st' = Stat_total st + int n"
    and l: "tests st' = tests st @ replicate n ?t"
    and e: "list_all (\<lambda>tag. \<not> is_included example_combined_stats tag) (tags ?t) \<longrightarrow>
                n = length (filter (\<lambda>c. CombinedTag_match c (tags ?t)
                                        \<and> same_key example_combined_stats (comb_name c) (comb_name ?c))
                             (ts_combine example_combined_stats))"
    using combined_counted_regardless [OF example_combined_stats_init h2 h3 h4, of example_criticality]
    by blast
  have n: "n = 1"
    using e rej h4 by (simp add: example_combined_stats_def same_key_def)
  have "st = TagStat_init ''A-comb'' [] [] False False ''a''"
    using s by (simp add: stats_getitem_def example_combined_stats_def)
  then have "Stat_total st' = 1" "tests st' = [?t]"
    using t l n by (simp_all add: TagStat_init_def Stat_total_def)
  then show ?thesis using rej r s' by auto
qed

section \<open>The order of the tag statistics\<close>

lemma cmp_string_refl [simp]: "cmp_string a a = 0"
  by (induction a) simp_all

lemma cmp_string_flip: "cmp_string b a = - cmp_string a b"
  by (induction a b rule: cmp_string.induct) simp_all

lemma cmp_string_trans:
  "cmp_string a b \<le> 0 \<Longrightarrow> cmp_string b c \<le> 0 \<Longrightarrow> cmp_string a c \<le> 0"
proof (induction a b arbitrary: c rule: cmp_string.induct)
  case 1
  then show ?case by simp
next
  case (2 b bs)
  then show ?case by (cases c) simp_all
next
  case (3 a as)
  then show ?case by simp
next
  case (4 a as b bs)
  show ?case
  proof (cases c)
    case Nil
    then show ?thesis using "4.prems" by simp
  next
    case (Cons x xs)
    then show ?thesis using "4.prems" "4.IH" [of xs]
      by (auto split: if_splits)
  qed
qed

lemma TagStat_cmp_marks:
  "(TagStat_cmp a b \<le> 0) =
     (marks a < marks b \<or> (marks a = marks b \<and> cmp_string (name a) (name b) \<le> 0))"
  by (simp add: TagStat_cmp_def cmp_bool_def marks_def)

lemma TagStat_cmp_marks_less:
  "(TagStat_cmp a b < 0) =
     (marks a < marks b \<or> (marks a = marks b \<and> cmp_string (name a) (name b) < 0))"
  by (simp add: TagStat_cmp_def cmp_bool_def marks_def)

lemma TagStat_cmp_trans:
  "TagStat_cmp a b \<le> 0 \<Longrightarrow> TagStat_cmp b c \<le> 0 \<Longrightarrow> TagStat_cmp a c \<le> 0"
  unfolding TagStat_cmp_marks using cmp_string_trans by (metis less_trans)

lemma TagStat_cmp_total: "\<not> TagStat_cmp b a < 0 \<Longrightarrow> TagStat_cmp a b \<le> 0"
proof -
  assume n: "\<not> TagStat_cmp b a < 0"
  have "cmp_string (name a) (name b) = - cmp_string (name b) (name a)"
    by (rule cmp_string_flip)
  then show ?thesis
    using n unfolding TagStat_cmp_marks TagStat_cmp_marks_less by (cases "marks a" "marks b" rule: linorder_cases) auto
qed

lemma mset_insort_cmp [simp]: "mset (insort_cmp cmp x ys) = add_mset x (mset ys)"
  by (induction ys) simp_all

lemma mset_sorted_cmp [simp]: "mset (sorted_cmp cmp xs) = mset xs"
  by (induction xs) (simp_all add: sorted_cmp_def)

lemma set_insort_cmp [simp]: "set (insort_cmp cmp x ys) = insert x (set ys)"
  by (induction ys) auto

lemma sorted_insort_cmp:
  assumes trans: "\<And>a b c. cmp a b \<le> 0 \<Longrightarrow> cmp b c \<le> 0 \<Longrightarrow> cmp a c \<le> (0::int)"
    and total: "\<And>a b. \<not> cmp b a < 0 \<Longrightarrow> cmp a b \<le> 0"
    and "sorted_wrt (\<lambda>a b. cmp a b \<le> 0) ys"
  shows "sorted_wrt (\<lambda>a b. cmp a b \<le> 0) (insort_cmp cmp x ys)"
  using assms(3)
proof (induction ys)
  case Nil
  show ?case by simp
next
  case (Cons y ys)
  show ?case
  proof (cases "cmp y x < 0")
    case True
    then have "cmp y x \<le> 0" by simp
    then show ?thesis using True Cons by auto
  next
    case False
    then have xy: "cmp x y \<le> 0" by (rule total)
    have "\<forall>z \<in> set ys. cmp x z \<le> 0"
      using Cons.prems xy trans by auto
    then show ?thesis using False Cons.prems xy by simp
  qed
qed

lemma sorted_sorted_cmp:
  assumes "\<And>a b c. cmp a b \<le> 0 \<Longrightarrow> cmp b c \<le> 0 \<Longrightarrow> cmp a c \<le> (0::int)"
    and "\<And>a b. \<not> cmp b a < 0 \<Longrightarrow> cmp a b \<le> 0"
  shows "sorted_wrt (\<lambda>a b. cmp a b \<le> 0) (sorted_cmp cmp xs)"
proof (induction xs)
  case Nil
  show ?case by (simp add: sorted_cmp_def)
next
  case (Cons x xs)
  have "sorted_cmp cmp (x # xs) = insort_cmp cmp x (sorted_cmp cmp xs)"
    by (simp add: sorted_cmp_def)
  then show ?case using sorted_insort_cmp [of cmp, OF assms Cons.IH] by simp
qed

lemma TagStatistics_iter_sorted:
  "sorted_wrt (\<lambda>a b. TagStat_cmp a b \<le> 0) (TagStatistics_iter self)"
  unfolding TagStatistics_iter_def
proof (rule sorted_sorted_cmp)
  fix a b c :: tag_stat
  assume "TagStat_cmp a b \<le> 0" and "TagStat_cmp b c \<le> 0"
  then show "TagStat_cmp a c \<le> 0" by (rule TagStat_cmp_trans)
next
  fix a b :: tag_stat
  assume "\<not> TagStat_cmp b a < 0"
  then show "TagStat_cmp a b \<le> 0" by (rule TagStat_cmp_total)
qed

lemma one_mark_marks:
  assumes "one_mark a" and "one_mark b"
  shows "(marks a < marks b) = (bucket a < bucket b)" and "(marks a = marks b) = (bucket a = bucket b)"
  using assms by (auto simp: one_mark_def marks_def bucket_def split: if_splits)

text \<open>
  C7, as amended. Iterating the tag aggregator yields its \<^verbatim>\<open>TagStat\<close> values, each
  once, in the order of \<^verbatim>\<open>__cmp__\<close>. When every value carries at most one of the three
  marks (critical, non-critical, combined), that order is: the critical tags, then the
  non-critical tags, then the combined tags, then the plain tags, each of the four
  groups ascending by name.
\<close>

theorem TagStatistics_iter_order:
  "mset (TagStatistics_iter self) = mset (stats_values self)
   \<and> sorted_wrt (\<lambda>a b. TagStat_cmp a b \<le> 0) (TagStatistics_iter self)
   \<and> (list_all one_mark (stats_values self) \<longrightarrow>
        sorted_wrt bucket_then_name (TagStatistics_iter self))"
proof (intro conjI impI)
  show m: "mset (TagStatistics_iter self) = mset (stats_values self)"
    by (simp add: TagStatistics_iter_def)
  show s: "sorted_wrt (\<lambda>a b. TagStat_cmp a b \<le> 0) (TagStatistics_iter self)"
    by (rule TagStatistics_iter_sorted)
  assume "list_all one_mark (stats_values self)"
  then have one: "\<forall>x \<in> set (TagStatistics_iter self). one_mark x"
    using m by (metis list_all_iff set_mset_mset)
  show "sorted_wrt bucket_then_name (TagStatistics_iter self)"
  proof (rule sorted_wrt_mono_rel [OF _ s])
    fix a b
    assume "a \<in> set (TagStatistics_iter self)" and "b \<in> set (TagStatistics_iter self)"
      and "TagStat_cmp a b \<le> 0"
    then show "bucket_then_name a b"
      using one one_mark_marks [of a b]
      by (simp add: TagStat_cmp_marks bucket_then_name_def)
  qed
qed

lemmas order_eval =
  TagStatistics_iter_def stats_values_def sorted_cmp_def TagStat_cmp_def cmp_bool_def
  example_tag_def TagStat_init_def

theorem TagStatistics_iter_order_witness:
  "list_all one_mark (stats_values example_sorted_stats)
   \<and> map name (TagStatistics_iter example_sorted_stats) = [''A'', ''B'', ''C'', ''D'', ''E'', ''F'']
   \<and> sorted_wrt bucket_then_name (TagStatistics_iter example_sorted_stats)"
proof -
  have o: "list_all one_mark (stats_values example_sorted_stats)"
    by (simp add: example_sorted_stats_def stats_values_def example_tag_def TagStat_init_def one_mark_def)
  have "map name (TagStatistics_iter example_sorted_stats) = [''A'', ''B'', ''C'', ''D'', ''E'', ''F'']"
    by (simp add: example_sorted_stats_def order_eval)
  then show ?thesis
    using o TagStatistics_iter_order [of example_sorted_stats] by simp
qed

text \<open>
  The claim C7 as stated, for every collection, fails when a tag is both critical and
  non-critical: after one test with the tags \<^verbatim>\<open>z\<close> and \<^verbatim>\<open>a\<close>, both critical and
  \<^verbatim>\<open>z\<close> also non-critical, the iteration yields \<^verbatim>\<open>z\<close> before \<^verbatim>\<open>a\<close>, so the critical
  tags are not in ascending order of their names.
\<close>

theorem TagStatistics_iter_order_counterexample:
  "TagStatistics_add_test example_tag_stats
       \<lparr>status = ''PASS'', test_critical = ''no'', tags = [''z'', ''a'']\<rparr>
       \<lparr>is_critical = (\<lambda>t. True), is_non_critical = (\<lambda>t. t = ''z'')\<rparr> = Inr example_two_marks
   \<and> map name (TagStatistics_iter example_two_marks) = [''z'', ''a'']
   \<and> map critical (TagStatistics_iter example_two_marks) = [True, True]
   \<and> \<not> sorted_wrt bucket_then_name (TagStatistics_iter example_two_marks)"
  by (simp add: example_two_marks_def example_tag_stats_def order_eval
      TagStatistics_add_test_def add_tags_statistics_def add_combined_statistics_def
      is_included_def simple_patterns_def stats_contains_def stats_setitem_def stats_getitem_def
      get_doc_def get_links_def TagStat_add_test_def Stat_add_test_def Let_def
      bucket_then_name_def bucket_def)

end
